theory Spec2Isabelle
  imports Main "HOL-Library.Word" "HOL-Library.Multiset"
begin

unbundle bit_operations_syntax

section \<open>The budgeted GPU-resource cache (GrResourceCache)\<close>

text \<open>
  The cache of \<^verbatim>\<open>GrResourceCache.cpp\<close> is embedded with an explicit object store: a
  resource pointer is a natural number, the store maps it to the fields of the
  \<^verbatim>\<open>GrGpuResource\<close> it points to, and every cache operation takes the cache and returns
  the updated cache. The release build is modelled: \<^verbatim>\<open>SkASSERT\<close>, \<^verbatim>\<open>SkDEBUGCODE\<close> and
  \<^verbatim>\<open>validate()\<close> compile to nothing. An access outside an array and a call through a
  null function pointer are undefined behaviour in C++; here they are error results.
\<close>

subsection \<open>Keys and resources\<close>

text \<open>
  Modelled from the spec: the key classes (\<^verbatim>\<open>GrScratchKey\<close>, \<^verbatim>\<open>GrUniqueKey\<close>) are declared
  outside the source at hand. A key is an opaque identity that may be invalid.
\<close>

datatype GrResourceKey = InvalidKey | Key nat

fun isValid :: "GrResourceKey \<Rightarrow> bool" where
  "isValid InvalidKey = False"
| "isValid (Key k) = True"

text \<open>
  Modelled from the spec: the capability set through which the cache sees a resource
  (\<^verbatim>\<open>GrGpuResource\<close> is declared outside the source at hand): memory footprint, 32-bit
  timestamp, signed back-index, external reference count, pending I/O, wrapped, budgeted,
  destroyed, and the two keys. \<open>gpuFreed\<close> records that the GPU state was torn down
  (\<^verbatim>\<open>release\<close>) rather than dropped (\<^verbatim>\<open>abandon\<close>).
\<close>

record GrGpuResource =
  timestamp :: "32 word"
  cacheArrayIndex :: int
  refCnt :: nat
  pendingIO :: bool
  gpuMemorySize :: "64 word"
  scratchKey :: GrResourceKey
  uniqueKey :: GrResourceKey
  budgeted :: bool
  wrapped :: bool
  destroyed :: bool
  gpuFreed :: bool

datatype error = NullCallback | BadIndex | BadUnref

datatype event = EvRelease nat | EvAbandon nat | EvOverBudgetCB

text \<open>
  The fields of \<^verbatim>\<open>GrResourceCache\<close> set by its constructor, the object store \<open>objs\<close> and
  the log \<open>events\<close> of what the cache did to the outside world (resources destroyed, the
  over-budget callback called). \<^verbatim>\<open>size_t\<close> is 64 bits wide, \<^verbatim>\<open>uint32_t\<close> 32 bits; the
  \<^verbatim>\<open>int\<close> counters are integers. A function pointer is \<open>None\<close> when null.
\<close>

record GrResourceCache =
  fTimestamp :: "32 word"
  fMaxCount :: int
  fMaxBytes :: "64 word"
  fBytes :: "64 word"
  fBudgetedCount :: int
  fBudgetedBytes :: "64 word"
  fOverBudgetCB :: "nat option"
  fOverBudgetData :: "nat option"
  fPurgeableQueue :: "nat list"
  fNonpurgeableResources :: "nat list"
  fScratchMap :: "(GrResourceKey \<times> nat) list"
  fUniqueHash :: "(GrResourceKey \<times> nat) list"
  objs :: "nat \<Rightarrow> GrGpuResource"
  events :: "event list"

definition kDefaultMaxCount :: int where
  "kDefaultMaxCount = 2 * (2 ^ 10)"

definition kDefaultMaxSize :: "64 word" where
  "kDefaultMaxSize = 96 * (2 ^ 20)"

text \<open>The constructor \<^verbatim>\<open>GrResourceCache::GrResourceCache()\<close>, over a given object store.\<close>

definition newCache :: "(nat \<Rightarrow> GrGpuResource) \<Rightarrow> GrResourceCache" where
  "newCache store = \<lparr> fTimestamp = 0, fMaxCount = kDefaultMaxCount,
     fMaxBytes = kDefaultMaxSize, fBytes = 0, fBudgetedCount = 0, fBudgetedBytes = 0,
     fOverBudgetCB = None, fOverBudgetData = None, fPurgeableQueue = [],
     fNonpurgeableResources = [], fScratchMap = [], fUniqueHash = [],
     objs = store, events = [] \<rparr>"

text \<open>Writing through a resource pointer.\<close>

definition upd :: "nat \<Rightarrow> (GrGpuResource \<Rightarrow> GrGpuResource) \<Rightarrow> GrResourceCache \<Rightarrow> GrResourceCache" where
  "upd r f c = c\<lparr>objs := (objs c)(r := f (objs c r))\<rparr>"

definition setCacheIndex :: "nat \<Rightarrow> int \<Rightarrow> GrResourceCache \<Rightarrow> GrResourceCache" where
  "setCacheIndex r i c = upd r (\<lambda>x. x\<lparr>cacheArrayIndex := i\<rparr>) c"

definition setTimestamp :: "nat \<Rightarrow> 32 word \<Rightarrow> GrResourceCache \<Rightarrow> GrResourceCache" where
  "setTimestamp r t c = upd r (\<lambda>x. x\<lparr>timestamp := t\<rparr>) c"

definition logEvent :: "event \<Rightarrow> GrResourceCache \<Rightarrow> GrResourceCache" where
  "logEvent e c = c\<lparr>events := events c @ [e]\<rparr>"

text \<open>
  Modelled from the spec: \<^verbatim>\<open>isPurgeable\<close>, \<^verbatim>\<open>internalHasRef\<close>, \<^verbatim>\<open>internalHasPendingIO\<close>,
  \<^verbatim>\<open>isBudgeted\<close> and \<^verbatim>\<open>isWrapped\<close> are declared outside the source at hand. A resource is
  purgeable when no outside references remain.
\<close>

definition internalHasRef :: "GrGpuResource \<Rightarrow> bool" where
  "internalHasRef x = (refCnt x \<noteq> 0)"

definition internalHasPendingIO :: "GrGpuResource \<Rightarrow> bool" where
  "internalHasPendingIO x = pendingIO x"

definition isPurgeable :: "GrGpuResource \<Rightarrow> bool" where
  "isPurgeable x = (\<not> internalHasRef x)"

text \<open>
  Modelled from the spec: \<^verbatim>\<open>isScratch\<close> is declared outside the source at hand. A scratch
  resource has a valid scratch key and no unique key; \<^verbatim>\<open>validate()\<close> asserts that a
  resource that has a valid scratch key and is not scratch is unbudgeted or has a
  unique key, so a scratch resource is also budgeted.
\<close>

definition isScratch :: "GrGpuResource \<Rightarrow> bool" where
  "isScratch x = (\<not> isValid (uniqueKey x) \<and> isValid (scratchKey x) \<and> budgeted x)"

text \<open>
  Modelled from the spec: \<^verbatim>\<open>getResourceCount\<close> and \<^verbatim>\<open>overBudget\<close> are declared in the
  header, outside the source at hand. The count of tracked resources is the size of
  both partitions; the cache is over budget when the budgeted bytes or the budgeted
  count exceed their limit (the comment at the end of \<^verbatim>\<open>validate()\<close> spells it out).
\<close>

definition getResourceCount :: "GrResourceCache \<Rightarrow> nat" where
  "getResourceCount c = length (fPurgeableQueue c) + length (fNonpurgeableResources c)"

definition overBudget :: "GrResourceCache \<Rightarrow> bool" where
  "overBudget c = (fBudgetedBytes c > fMaxBytes c \<or> fBudgetedCount c > fMaxCount c)"

text \<open>
  Modelled from the spec: \<^verbatim>\<open>setOverBudgetCallback\<close> is declared in the header, outside
  the source at hand; it installs the callback and its user data.
\<close>

definition setOverBudgetCallback :: "nat \<Rightarrow> nat \<Rightarrow> GrResourceCache \<Rightarrow> GrResourceCache" where
  "setOverBudgetCallback cb userdata c = c\<lparr>fOverBudgetCB := Some cb, fOverBudgetData := Some userdata\<rparr>"

subsection \<open>The purgeable heap\<close>

text \<open>
  Modelled from the spec: the priority queue class (\<^verbatim>\<open>SkTDPQueue\<close>) is outside the source
  at hand. It is a binary min-heap in an array, ordered by \<^verbatim>\<open>CompareTimestamp\<close>
  (\<open>timestamp a < timestamp b\<close>); each move of a resource records its heap position on
  the resource. Insertion is the standard sift-up; removal at the stored position
  moves the last element into the hole and sifts it down, then up.
\<close>

definition CompareTimestamp :: "GrResourceCache \<Rightarrow> nat \<Rightarrow> nat \<Rightarrow> bool" where
  "CompareTimestamp c a b = (timestamp (objs c a) < timestamp (objs c b))"

definition setIndex :: "nat \<Rightarrow> GrResourceCache \<Rightarrow> GrResourceCache" where
  "setIndex i c = setCacheIndex (fPurgeableQueue c ! i) (int i) c"

definition swapQ :: "nat \<Rightarrow> nat \<Rightarrow> GrResourceCache \<Rightarrow> GrResourceCache" where
  "swapQ i j c = (let q = fPurgeableQueue c in c\<lparr>fPurgeableQueue := q[i := q ! j, j := q ! i]\<rparr>)"

definition parentOf :: "nat \<Rightarrow> nat" where
  "parentOf i = (i - 1) div 2"

definition smallerChild :: "nat \<Rightarrow> GrResourceCache \<Rightarrow> nat" where
  "smallerChild i c =
     (let q = fPurgeableQueue c; l = 2 * i + 1 in
      if l + 1 < length q \<and> CompareTimestamp c (q ! (l + 1)) (q ! l) then l + 1 else l)"

function percolateUp :: "nat \<Rightarrow> GrResourceCache \<Rightarrow> GrResourceCache" where
  "percolateUp i c =
     (if i = 0 then setIndex 0 c
      else if CompareTimestamp c (fPurgeableQueue c ! i) (fPurgeableQueue c ! parentOf i)
        then percolateUp (parentOf i) (setIndex i (swapQ i (parentOf i) c))
        else setIndex i c)"
  by pat_completeness auto
termination
  by (relation "measure fst") (auto simp: parentOf_def)

function percolateDown :: "nat \<Rightarrow> GrResourceCache \<Rightarrow> GrResourceCache" where
  "percolateDown i c =
     (if length (fPurgeableQueue c) \<le> 2 * i + 1 then setIndex i c
      else if CompareTimestamp c (fPurgeableQueue c ! smallerChild i c) (fPurgeableQueue c ! i)
        then percolateDown (smallerChild i c) (setIndex i (swapQ (smallerChild i c) i c))
        else setIndex i c)"
  by pat_completeness auto
termination
  by (relation "measure (\<lambda>(i, c). length (fPurgeableQueue c) - i)")
     (auto simp: setIndex_def setCacheIndex_def upd_def swapQ_def smallerChild_def Let_def)

definition queueInsert :: "nat \<Rightarrow> GrResourceCache \<Rightarrow> GrResourceCache" where
  "queueInsert r c =
     (let n = length (fPurgeableQueue c) in
      percolateUp n (setIndex n (c\<lparr>fPurgeableQueue := fPurgeableQueue c @ [r]\<rparr>)))"

definition queueRemoveAt :: "nat \<Rightarrow> GrResourceCache \<Rightarrow> GrResourceCache" where
  "queueRemoveAt i c =
     (let q = fPurgeableQueue c; n = length q in
      if i = n - 1 then c\<lparr>fPurgeableQueue := butlast q\<rparr>
      else percolateUp i (percolateDown i
             (setIndex i (c\<lparr>fPurgeableQueue := (butlast q)[i := last q]\<rparr>))))"

definition queueRemove :: "nat \<Rightarrow> GrResourceCache \<Rightarrow> error + GrResourceCache" where
  "queueRemove r c =
     (let index = cacheArrayIndex (objs c r) in
      if index < 0 \<or> int (length (fPurgeableQueue c)) \<le> index then Inl BadIndex
      else Inr (queueRemoveAt (nat index) c))"

definition queuePeek :: "GrResourceCache \<Rightarrow> nat" where
  "queuePeek c = hd (fPurgeableQueue c)"

definition queuePop :: "GrResourceCache \<Rightarrow> GrResourceCache" where
  "queuePop c = queueRemoveAt 0 c"

subsection \<open>The nonpurgeable array\<close>

text \<open>\<^verbatim>\<open>addToNonpurgeableArray\<close> and \<^verbatim>\<open>removeFromNonpurgeableArray\<close>, from the source.\<close>

definition addToNonpurgeableArray :: "nat \<Rightarrow> GrResourceCache \<Rightarrow> GrResourceCache" where
  "addToNonpurgeableArray r c =
     (let index = length (fNonpurgeableResources c) in
      setCacheIndex r (int index)
        (c\<lparr>fNonpurgeableResources := fNonpurgeableResources c @ [r]\<rparr>))"

definition removeFromNonpurgeableArray :: "nat \<Rightarrow> GrResourceCache \<Rightarrow> error + GrResourceCache" where
  "removeFromNonpurgeableArray r c =
     (let index = cacheArrayIndex (objs c r); a = fNonpurgeableResources c in
      if a = [] \<or> index < 0 \<or> int (length a) \<le> index then Inl BadIndex
      else let tail = last a;
               c1 = c\<lparr>fNonpurgeableResources := a[nat index := tail]\<rparr>;
               c2 = setCacheIndex tail index c1
           in Inr (c2\<lparr>fNonpurgeableResources := butlast (fNonpurgeableResources c2)\<rparr>))"

declare percolateUp.simps [simp del]
declare percolateDown.simps [simp del]

subsection \<open>What the heap operations leave alone\<close>

text \<open>
  A heap operation changes the heap array and the back-indices stored on resources,
  nothing else.
\<close>

definition heapFrame :: "GrResourceCache \<Rightarrow> GrResourceCache \<Rightarrow> bool" where
  "heapFrame c c' = (\<exists>q f. c' = c\<lparr>fPurgeableQueue := q,
       objs := (\<lambda>r. (objs c r)\<lparr>cacheArrayIndex := f r\<rparr>)\<rparr>)"

lemma heapFrame_refl: "heapFrame c c"
  unfolding heapFrame_def
  by (rule exI [of _ "fPurgeableQueue c"], rule exI [of _ "\<lambda>r. cacheArrayIndex (objs c r)"]) simp

lemma heapFrame_trans: "heapFrame a b \<Longrightarrow> heapFrame b c \<Longrightarrow> heapFrame a c"
  unfolding heapFrame_def by clarsimp blast

lemma heapFrame_setIndex: "heapFrame c (setIndex i c)"
  unfolding heapFrame_def setIndex_def setCacheIndex_def upd_def
  by (rule exI [of _ "fPurgeableQueue c"],
      rule exI [of _ "\<lambda>r. if r = fPurgeableQueue c ! i then int i else cacheArrayIndex (objs c r)"])
     (auto intro!: GrResourceCache.equality)

lemma heapFrame_queue_update: "heapFrame c (c\<lparr>fPurgeableQueue := q\<rparr>)"
  unfolding heapFrame_def
  by (rule exI [of _ q], rule exI [of _ "\<lambda>r. cacheArrayIndex (objs c r)"]) simp

lemma heapFrame_swapQ: "heapFrame c (swapQ i j c)"
  unfolding swapQ_def Let_def by (rule heapFrame_queue_update)

lemma heapFrame_percolateUp: "heapFrame c (percolateUp i c)"
proof (induction i c rule: percolateUp.induct)
  case (1 i c)
  have step: "heapFrame c (setIndex i (swapQ i (parentOf i) c))"
    by (rule heapFrame_trans [OF heapFrame_swapQ heapFrame_setIndex])
  show ?case
  proof (cases "i \<noteq> 0 \<and> CompareTimestamp c (fPurgeableQueue c ! i) (fPurgeableQueue c ! parentOf i)")
    case True
    then have "heapFrame (setIndex i (swapQ i (parentOf i) c))
        (percolateUp (parentOf i) (setIndex i (swapQ i (parentOf i) c)))"
      using "1.IH" by simp
    from heapFrame_trans [OF step this] True show ?thesis
      by (subst percolateUp.simps) simp
  next
    case False
    then show ?thesis by (subst percolateUp.simps) (auto simp: heapFrame_setIndex)
  qed
qed

lemma heapFrame_percolateDown: "heapFrame c (percolateDown i c)"
proof (induction i c rule: percolateDown.induct)
  case (1 i c)
  have step: "heapFrame c (setIndex i (swapQ (smallerChild i c) i c))"
    by (rule heapFrame_trans [OF heapFrame_swapQ heapFrame_setIndex])
  show ?case
  proof (cases "\<not> length (fPurgeableQueue c) \<le> 2 * i + 1 \<and>
      CompareTimestamp c (fPurgeableQueue c ! smallerChild i c) (fPurgeableQueue c ! i)")
    case True
    then have "heapFrame (setIndex i (swapQ (smallerChild i c) i c))
        (percolateDown (smallerChild i c) (setIndex i (swapQ (smallerChild i c) i c)))"
      using "1.IH" by simp
    from heapFrame_trans [OF step this] True show ?thesis
      by (subst percolateDown.simps) simp
  next
    case False
    then show ?thesis by (subst percolateDown.simps) (auto simp: heapFrame_setIndex)
  qed
qed

lemma heapFrame_queueInsert: "heapFrame c (queueInsert r c)"
  unfolding queueInsert_def Let_def
  by (rule heapFrame_trans [OF heapFrame_queue_update],
      rule heapFrame_trans [OF heapFrame_setIndex], rule heapFrame_percolateUp)

lemma heapFrame_queueRemoveAt: "heapFrame c (queueRemoveAt i c)"
proof (cases "i = length (fPurgeableQueue c) - 1")
  case True
  then show ?thesis by (simp add: queueRemoveAt_def Let_def heapFrame_queue_update)
next
  case False
  then show ?thesis
    unfolding queueRemoveAt_def Let_def
    by (simp only: if_False)
       (rule heapFrame_trans [OF heapFrame_queue_update],
        rule heapFrame_trans [OF heapFrame_setIndex],
        rule heapFrame_trans [OF heapFrame_percolateDown], rule heapFrame_percolateUp)
qed

text \<open>The fields a heap operation does not touch, read off the frame.\<close>

lemma heapFrame_fields:
  assumes "heapFrame c c'"
  shows "fTimestamp c' = fTimestamp c" "fMaxCount c' = fMaxCount c" "fMaxBytes c' = fMaxBytes c"
    "fBytes c' = fBytes c" "fBudgetedCount c' = fBudgetedCount c"
    "fBudgetedBytes c' = fBudgetedBytes c" "fOverBudgetCB c' = fOverBudgetCB c"
    "fOverBudgetData c' = fOverBudgetData c"
    "fNonpurgeableResources c' = fNonpurgeableResources c"
    "fScratchMap c' = fScratchMap c" "fUniqueHash c' = fUniqueHash c" "events c' = events c"
    "timestamp (objs c' r) = timestamp (objs c r)" "refCnt (objs c' r) = refCnt (objs c r)"
    "pendingIO (objs c' r) = pendingIO (objs c r)"
    "gpuMemorySize (objs c' r) = gpuMemorySize (objs c r)"
    "scratchKey (objs c' r) = scratchKey (objs c r)" "uniqueKey (objs c' r) = uniqueKey (objs c r)"
    "budgeted (objs c' r) = budgeted (objs c r)" "wrapped (objs c' r) = wrapped (objs c r)"
    "destroyed (objs c' r) = destroyed (objs c r)" "gpuFreed (objs c' r) = gpuFreed (objs c r)"
  using assms unfolding heapFrame_def by auto

lemmas percolateUp_fields [simp] = heapFrame_fields [OF heapFrame_percolateUp]
lemmas percolateDown_fields [simp] = heapFrame_fields [OF heapFrame_percolateDown]
lemmas queueInsert_fields [simp] = heapFrame_fields [OF heapFrame_queueInsert]
lemmas queueRemoveAt_fields [simp] = heapFrame_fields [OF heapFrame_queueRemoveAt]
lemmas setIndex_fields [simp] = heapFrame_fields [OF heapFrame_setIndex]
lemmas swapQ_fields [simp] = heapFrame_fields [OF heapFrame_swapQ]

lemma fPurgeableQueue_setIndex [simp]: "fPurgeableQueue (setIndex i c) = fPurgeableQueue c"
  by (simp add: setIndex_def setCacheIndex_def upd_def)

lemma fPurgeableQueue_swapQ [simp]:
  "fPurgeableQueue (swapQ i j c) = (fPurgeableQueue c)[i := fPurgeableQueue c ! j, j := fPurgeableQueue c ! i]"
  by (simp add: swapQ_def Let_def)

lemma objs_swapQ [simp]: "objs (swapQ i j c) = objs c"
  by (simp add: swapQ_def Let_def)

lemma length_percolateUp [simp]:
  "length (fPurgeableQueue (percolateUp i c)) = length (fPurgeableQueue c)"
proof (induction i c rule: percolateUp.induct)
  case (1 i c)
  show ?case using "1.IH" by (subst percolateUp.simps) simp
qed

lemma length_percolateDown [simp]:
  "length (fPurgeableQueue (percolateDown i c)) = length (fPurgeableQueue c)"
proof (induction i c rule: percolateDown.induct)
  case (1 i c)
  show ?case using "1.IH" by (subst percolateDown.simps) simp
qed

lemma length_queueInsert [simp]:
  "length (fPurgeableQueue (queueInsert r c)) = Suc (length (fPurgeableQueue c))"
  unfolding queueInsert_def Let_def
  by (simp only: length_percolateUp fPurgeableQueue_setIndex) simp

lemma length_queueRemoveAt [simp]:
  "length (fPurgeableQueue (queueRemoveAt i c)) = length (fPurgeableQueue c) - 1"
  unfolding queueRemoveAt_def Let_def
  by (simp only: length_percolateUp length_percolateDown fPurgeableQueue_setIndex
        if_distrib [of fPurgeableQueue] if_distrib [of length]) simp

subsection \<open>The key maps\<close>

text \<open>
  Modelled from the spec: the multimap class behind \<^verbatim>\<open>fScratchMap\<close> and the hash table
  class behind \<^verbatim>\<open>fUniqueHash\<close> are outside the source at hand. The multimap keeps one
  entry per insertion, removes one given occurrence, and finds the first stored
  resource under a key that satisfies a predicate. The hash table adds a resource
  under its own unique key, removes by key, and finds by key.
\<close>

definition scratchMapInsert :: "GrResourceKey \<Rightarrow> nat \<Rightarrow> GrResourceCache \<Rightarrow> GrResourceCache" where
  "scratchMapInsert k r c = c\<lparr>fScratchMap := fScratchMap c @ [(k, r)]\<rparr>"

definition scratchMapRemove :: "GrResourceKey \<Rightarrow> nat \<Rightarrow> GrResourceCache \<Rightarrow> GrResourceCache" where
  "scratchMapRemove k r c = c\<lparr>fScratchMap := remove1 (k, r) (fScratchMap c)\<rparr>"

definition scratchMapFind :: "GrResourceKey \<Rightarrow> (GrGpuResource \<Rightarrow> bool) \<Rightarrow> GrResourceCache \<Rightarrow> nat option" where
  "scratchMapFind k pred c =
     map_option snd (List.find (\<lambda>e. fst e = k \<and> pred (objs c (snd e))) (fScratchMap c))"

definition uniqueHashAdd :: "nat \<Rightarrow> GrResourceCache \<Rightarrow> GrResourceCache" where
  "uniqueHashAdd r c = c\<lparr>fUniqueHash := fUniqueHash c @ [(uniqueKey (objs c r), r)]\<rparr>"

definition uniqueHashRemove :: "GrResourceKey \<Rightarrow> GrResourceCache \<Rightarrow> GrResourceCache" where
  "uniqueHashRemove k c = c\<lparr>fUniqueHash := filter (\<lambda>e. fst e \<noteq> k) (fUniqueHash c)\<rparr>"

definition uniqueHashFind :: "GrResourceKey \<Rightarrow> GrResourceCache \<Rightarrow> nat option" where
  "uniqueHashFind k c = map_of (fUniqueHash c) k"

subsection \<open>Removing and destroying a resource\<close>

text \<open>\<^verbatim>\<open>GrResourceCache::removeResource\<close>, from the source.\<close>

definition removeResource :: "nat \<Rightarrow> GrResourceCache \<Rightarrow> error + GrResourceCache" where
  "removeResource r c =
     (case (if isPurgeable (objs c r) then queueRemove r c
            else removeFromNonpurgeableArray r c) of
        Inl e \<Rightarrow> Inl e
      | Inr c1 \<Rightarrow>
          let size = gpuMemorySize (objs c1 r);
              c2 = c1\<lparr>fBytes := fBytes c1 - size\<rparr>;
              c3 = (if budgeted (objs c2 r)
                    then c2\<lparr>fBudgetedCount := fBudgetedCount c2 - 1,
                            fBudgetedBytes := fBudgetedBytes c2 - size\<rparr>
                    else c2);
              c4 = (if isValid (scratchKey (objs c3 r))
                    then scratchMapRemove (scratchKey (objs c3 r)) r c3 else c3);
              c5 = (if isValid (uniqueKey (objs c4 r))
                    then uniqueHashRemove (uniqueKey (objs c4 r)) c4 else c4)
          in Inr c5)"

text \<open>
  Modelled from the spec: \<^verbatim>\<open>release\<close> and \<^verbatim>\<open>abandon\<close> of a resource are outside the
  source at hand. \<^verbatim>\<open>release\<close> destroys the GPU state and removes the resource from the
  cache; \<^verbatim>\<open>abandon\<close> does the same and skips the GPU teardown.
\<close>

definition release :: "nat \<Rightarrow> GrResourceCache \<Rightarrow> error + GrResourceCache" where
  "release r c =
     (case removeResource r c of
        Inl e \<Rightarrow> Inl e
      | Inr c' \<Rightarrow> Inr (logEvent (EvRelease r)
                  (upd r (\<lambda>x. x\<lparr>destroyed := True, gpuFreed := True\<rparr>) c')))"

definition abandon :: "nat \<Rightarrow> GrResourceCache \<Rightarrow> error + GrResourceCache" where
  "abandon r c =
     (case removeResource r c of
        Inl e \<Rightarrow> Inl e
      | Inr c' \<Rightarrow> Inr (logEvent (EvAbandon r) (upd r (\<lambda>x. x\<lparr>destroyed := True\<rparr>) c')))"

text \<open>Each removal shrinks the cache by one resource: the loops over it terminate.\<close>

lemma queueRemove_count:
  "queueRemove r c = Inr c' \<Longrightarrow> getResourceCount c' < getResourceCount c"
  by (auto simp: queueRemove_def getResourceCount_def Let_def split: if_splits)

lemma removeFromNonpurgeableArray_count:
  "removeFromNonpurgeableArray r c = Inr c' \<Longrightarrow> getResourceCount c' < getResourceCount c"
  by (auto simp: removeFromNonpurgeableArray_def getResourceCount_def Let_def
        setCacheIndex_def upd_def split: if_splits)

lemma removeResource_count:
  "removeResource r c = Inr c' \<Longrightarrow> getResourceCount c' < getResourceCount c"
  unfolding removeResource_def
  by (auto simp: Let_def getResourceCount_def scratchMapRemove_def uniqueHashRemove_def
        split: sum.splits if_splits
        dest!: queueRemove_count removeFromNonpurgeableArray_count)

lemma release_count:
  "release r c = Inr c' \<Longrightarrow> getResourceCount c' < getResourceCount c"
  by (auto simp: release_def logEvent_def upd_def getResourceCount_def
        split: sum.splits dest!: removeResource_count)

lemma abandon_count:
  "abandon r c = Inr c' \<Longrightarrow> getResourceCount c' < getResourceCount c"
  by (auto simp: abandon_def logEvent_def upd_def getResourceCount_def
        split: sum.splits dest!: removeResource_count)

subsection \<open>Purging\<close>

text \<open>
  \<^verbatim>\<open>GrResourceCache::internalPurgeAsNeeded\<close>, from the source. \<open>purgeLoop\<close> is its while
  loop and returns \<^verbatim>\<open>stillOverbudget\<close>. The body of the over-budget callback is client
  code; its call is logged. A null callback pointer cannot be called.
\<close>

function purgeLoop :: "GrResourceCache \<Rightarrow> error + (bool \<times> GrResourceCache)" where
  "purgeLoop c =
     (if fPurgeableQueue c \<noteq> [] then
        (case release (queuePeek c) c of
           Inl e \<Rightarrow> Inl e
         | Inr c' \<Rightarrow> if \<not> overBudget c' then Inr (False, c') else purgeLoop c')
      else Inr (True, c))"
  by pat_completeness auto
termination
  by (relation "measure getResourceCount") (auto dest: release_count)

declare purgeLoop.simps [simp del]

definition internalPurgeAsNeeded :: "GrResourceCache \<Rightarrow> error + GrResourceCache" where
  "internalPurgeAsNeeded c =
     (case purgeLoop c of
        Inl e \<Rightarrow> Inl e
      | Inr (stillOverbudget, c') \<Rightarrow>
          if stillOverbudget then
            (case fOverBudgetCB c' of
               None \<Rightarrow> Inl NullCallback
             | Some cb \<Rightarrow> Inr (logEvent EvOverBudgetCB c'))
          else Inr c')"

text \<open>
  Modelled from the spec: \<^verbatim>\<open>purgeAsNeeded\<close> is declared in the header, outside the source
  at hand; it purges while the cache is over budget (\<^verbatim>\<open>internalPurgeAsNeeded\<close> asserts
  that it is entered over budget).
\<close>

definition purgeAsNeeded :: "GrResourceCache \<Rightarrow> error + GrResourceCache" where
  "purgeAsNeeded c = (if overBudget c then internalPurgeAsNeeded c else Inr c)"

lemma purgeLoop_count:
  "purgeLoop c = Inr (b, c') \<Longrightarrow> getResourceCount c' \<le> getResourceCount c"
proof (induction c rule: purgeLoop.induct)
  case (1 c)
  show ?case
  proof (cases "fPurgeableQueue c = []")
    case True
    with "1.prems" show ?thesis by (subst (asm) purgeLoop.simps) simp
  next
    case False
    with "1.prems" obtain c1 where r: "release (queuePeek c) c = Inr c1"
      by (subst (asm) purgeLoop.simps) (auto split: sum.splits)
    show ?thesis
    proof (cases "overBudget c1")
      case True
      with "1.prems" False r have "purgeLoop c1 = Inr (b, c')"
        by (subst (asm) purgeLoop.simps) simp
      with "1.IH" [OF False r] True release_count [OF r] show ?thesis by simp
    next
      case F2: False
      with "1.prems" False r have "c' = c1" by (subst (asm) purgeLoop.simps) simp
      with release_count [OF r] show ?thesis by simp
    qed
  qed
qed

text \<open>\<^verbatim>\<open>GrResourceCache::purgeAllUnlocked\<close>, from the source.\<close>

function purgeAllUnlocked :: "GrResourceCache \<Rightarrow> error + GrResourceCache" where
  "purgeAllUnlocked c =
     (if fPurgeableQueue c \<noteq> [] then
        (case release (queuePeek c) c of Inl e \<Rightarrow> Inl e | Inr c' \<Rightarrow> purgeAllUnlocked c')
      else Inr c)"
  by pat_completeness auto
termination
  by (relation "measure getResourceCount") (auto dest: release_count)

declare purgeAllUnlocked.simps [simp del]

text \<open>\<^verbatim>\<open>GrResourceCache::setLimits\<close>, from the source.\<close>

definition setLimits :: "int \<Rightarrow> 64 word \<Rightarrow> GrResourceCache \<Rightarrow> error + GrResourceCache" where
  "setLimits maxCount maxBytes c = purgeAsNeeded (c\<lparr>fMaxCount := maxCount, fMaxBytes := maxBytes\<rparr>)"

subsection \<open>Shutdown\<close>

text \<open>
  \<^verbatim>\<open>GrResourceCache::releaseAll\<close> and \<^verbatim>\<open>abandonAll\<close>, from the source: two loops, the first
  over the back of the nonpurgeable array, the second over the top of the heap. The
  flag selects \<^verbatim>\<open>abandon\<close> in place of \<^verbatim>\<open>release\<close>.
\<close>

definition destroyResource :: "bool \<Rightarrow> nat \<Rightarrow> GrResourceCache \<Rightarrow> error + GrResourceCache" where
  "destroyResource abandoning r c = (if abandoning then abandon r c else release r c)"

lemma destroyResource_count:
  "destroyResource a r c = Inr c' \<Longrightarrow> getResourceCount c' < getResourceCount c"
  by (auto simp: destroyResource_def split: if_splits dest: release_count abandon_count)

function nonpurgeableLoop :: "bool \<Rightarrow> GrResourceCache \<Rightarrow> error + GrResourceCache" where
  "nonpurgeableLoop abandoning c =
     (if fNonpurgeableResources c \<noteq> [] then
        (case destroyResource abandoning (last (fNonpurgeableResources c)) c of
           Inl e \<Rightarrow> Inl e
         | Inr c' \<Rightarrow> nonpurgeableLoop abandoning c')
      else Inr c)"
  by pat_completeness auto
termination
  by (relation "measure (\<lambda>(a, c). getResourceCount c)") (auto dest: destroyResource_count)

function purgeableLoop :: "bool \<Rightarrow> GrResourceCache \<Rightarrow> error + GrResourceCache" where
  "purgeableLoop abandoning c =
     (if fPurgeableQueue c \<noteq> [] then
        (case destroyResource abandoning (queuePeek c) c of
           Inl e \<Rightarrow> Inl e
         | Inr c' \<Rightarrow> purgeableLoop abandoning c')
      else Inr c)"
  by pat_completeness auto
termination
  by (relation "measure (\<lambda>(a, c). getResourceCount c)") (auto dest: destroyResource_count)

declare nonpurgeableLoop.simps [simp del]
declare purgeableLoop.simps [simp del]

definition releaseAll :: "GrResourceCache \<Rightarrow> error + GrResourceCache" where
  "releaseAll c =
     (case nonpurgeableLoop False c of Inl e \<Rightarrow> Inl e | Inr c' \<Rightarrow> purgeableLoop False c')"

definition abandonAll :: "GrResourceCache \<Rightarrow> error + GrResourceCache" where
  "abandonAll c =
     (case nonpurgeableLoop True c of Inl e \<Rightarrow> Inl e | Inr c' \<Rightarrow> purgeableLoop True c')"

subsection \<open>Timestamps and wrap recovery\<close>

text \<open>
  \<^verbatim>\<open>GrResourceCache::getNextTimestamp\<close>, from the source. \<open>drainQueue\<close> is the loop that
  empties the heap into \<^verbatim>\<open>sortedPurgeableResources\<close>; \<open>mergeLoop\<close>, \<open>finishP\<close> and \<open>finishNP\<close>
  are the three loops that hand out the new timestamps; \<open>rebuildQueue\<close> is the final loop.
  Modelled from the spec: the sort routine (\<^verbatim>\<open>SkTQSort\<close>) is outside the source at hand;
  it sorts the nonpurgeable array by current timestamp.
\<close>

function drainQueue :: "nat list \<Rightarrow> GrResourceCache \<Rightarrow> nat list \<times> GrResourceCache" where
  "drainQueue acc c =
     (if fPurgeableQueue c \<noteq> [] then drainQueue (acc @ [queuePeek c]) (queuePop c)
      else (acc, c))"
  by pat_completeness auto
termination
  by (relation "measure (\<lambda>(s, c). length (fPurgeableQueue c))")
     (auto simp: queuePop_def intro: diff_less)

declare drainQueue.simps [simp del]

definition sortNonpurgeable :: "GrResourceCache \<Rightarrow> GrResourceCache" where
  "sortNonpurgeable c =
     c\<lparr>fNonpurgeableResources := sort_key (\<lambda>r. timestamp (objs c r)) (fNonpurgeableResources c)\<rparr>"

definition stampP :: "nat \<Rightarrow> GrResourceCache \<Rightarrow> GrResourceCache" where
  "stampP r c = (setTimestamp r (fTimestamp c) c)\<lparr>fTimestamp := fTimestamp c + 1\<rparr>"

definition stampNP :: "nat \<Rightarrow> GrResourceCache \<Rightarrow> GrResourceCache" where
  "stampNP currNP c =
     (let r = fNonpurgeableResources c ! currNP;
          c1 = setCacheIndex r (int currNP) c
      in (setTimestamp r (fTimestamp c1) c1)\<lparr>fTimestamp := fTimestamp c1 + 1\<rparr>)"

function mergeLoop :: "nat list \<Rightarrow> nat \<Rightarrow> nat \<Rightarrow> GrResourceCache \<Rightarrow> nat \<times> nat \<times> GrResourceCache" where
  "mergeLoop sp currP currNP c =
     (if currP < length sp \<and> currNP < length (fNonpurgeableResources c) then
        (if timestamp (objs c (sp ! currP)) < timestamp (objs c (fNonpurgeableResources c ! currNP))
         then mergeLoop sp (currP + 1) currNP (stampP (sp ! currP) c)
         else mergeLoop sp currP (currNP + 1) (stampNP currNP c))
      else (currP, currNP, c))"
  by pat_completeness auto
termination
  by (relation "measure (\<lambda>(sp, currP, currNP, c).
        (length sp - currP) + (length (fNonpurgeableResources c) - currNP))")
     (auto simp: stampP_def stampNP_def setTimestamp_def setCacheIndex_def upd_def Let_def)

function finishP :: "nat list \<Rightarrow> nat \<Rightarrow> GrResourceCache \<Rightarrow> GrResourceCache" where
  "finishP sp currP c =
     (if currP < length sp then finishP sp (currP + 1) (stampP (sp ! currP) c) else c)"
  by pat_completeness auto
termination
  by (relation "measure (\<lambda>(sp, currP, c). length sp - currP)") auto

function finishNP :: "nat \<Rightarrow> GrResourceCache \<Rightarrow> GrResourceCache" where
  "finishNP currNP c =
     (if currNP < length (fNonpurgeableResources c) then finishNP (currNP + 1) (stampNP currNP c)
      else c)"
  by pat_completeness auto
termination
  by (relation "measure (\<lambda>(currNP, c). length (fNonpurgeableResources c) - currNP)")
     (auto simp: stampNP_def setTimestamp_def setCacheIndex_def upd_def Let_def)

declare mergeLoop.simps [simp del]
declare finishP.simps [simp del]
declare finishNP.simps [simp del]

fun rebuildQueue :: "nat list \<Rightarrow> GrResourceCache \<Rightarrow> GrResourceCache" where
  "rebuildQueue [] c = c"
| "rebuildQueue (r # rs) c = rebuildQueue rs (queueInsert r c)"

definition resetTimestamps :: "GrResourceCache \<Rightarrow> GrResourceCache" where
  "resetTimestamps c =
     (case drainQueue [] c of
        (sortedPurgeableResources, c1) \<Rightarrow>
          (case mergeLoop sortedPurgeableResources 0 0 (sortNonpurgeable c1) of
             (currP, currNP, c2) \<Rightarrow>
               rebuildQueue sortedPurgeableResources
                 (finishNP currNP (finishP sortedPurgeableResources currP c2))))"

definition getNextTimestamp :: "GrResourceCache \<Rightarrow> 32 word \<times> GrResourceCache" where
  "getNextTimestamp c =
     (let c' = (if fTimestamp c = 0 \<and> getResourceCount c \<noteq> 0 then resetTimestamps c else c)
      in (fTimestamp c', c'\<lparr>fTimestamp := fTimestamp c' + 1\<rparr>))"

subsection \<open>Insertion and promotion\<close>

text \<open>\<^verbatim>\<open>GrResourceCache::insertResource\<close>, from the source.\<close>

definition insertResource :: "nat \<Rightarrow> GrResourceCache \<Rightarrow> error + GrResourceCache" where
  "insertResource r c =
     (case getNextTimestamp c of
        (ts, c0) \<Rightarrow>
          let c1 = addToNonpurgeableArray r (setTimestamp r ts c0);
              size = gpuMemorySize (objs c1 r);
              c2 = c1\<lparr>fBytes := fBytes c1 + size\<rparr>;
              c3 = (if budgeted (objs c2 r)
                    then c2\<lparr>fBudgetedCount := fBudgetedCount c2 + 1,
                            fBudgetedBytes := fBudgetedBytes c2 + size\<rparr>
                    else c2);
              c4 = (if isValid (scratchKey (objs c3 r))
                    then scratchMapInsert (scratchKey (objs c3 r)) r c3 else c3)
          in purgeAsNeeded c4)"

text \<open>
  Modelled from the spec: \<^verbatim>\<open>ref\<close> of a resource is outside the source at hand; it adds an
  external reference.
\<close>

definition ref :: "nat \<Rightarrow> GrResourceCache \<Rightarrow> GrResourceCache" where
  "ref r c = upd r (\<lambda>x. x\<lparr>refCnt := refCnt x + 1\<rparr>) c"

text \<open>\<^verbatim>\<open>GrResourceCache::refAndMakeResourceMRU\<close>, from the source.\<close>

definition refAndMakeResourceMRU :: "nat \<Rightarrow> GrResourceCache \<Rightarrow> error + GrResourceCache" where
  "refAndMakeResourceMRU r c =
     (case (if isPurgeable (objs c r)
            then (case queueRemove r c of
                    Inl e \<Rightarrow> Inl e
                  | Inr c1 \<Rightarrow> Inr (addToNonpurgeableArray r c1))
            else Inr c) of
        Inl e \<Rightarrow> Inl e
      | Inr c2 \<Rightarrow>
          (case getNextTimestamp (ref r c2) of
             (ts, c3) \<Rightarrow> Inr (setTimestamp r ts c3)))"

subsection \<open>Scratch lookup\<close>

text \<open>
  Modelled from the spec: the two flag constants are declared in the header, outside
  the source at hand; they are two distinct bits.
\<close>

definition kPreferNoPendingIO_ScratchFlag :: "32 word" where
  "kPreferNoPendingIO_ScratchFlag = 1"

definition kRequireNoPendingIO_ScratchFlag :: "32 word" where
  "kRequireNoPendingIO_ScratchFlag = 2"

text \<open>\<^verbatim>\<open>GrResourceCache::AvailableForScratchUse\<close>, from the source.\<close>

definition AvailableForScratchUse :: "bool \<Rightarrow> GrGpuResource \<Rightarrow> bool" where
  "AvailableForScratchUse fRejectPendingIO resource =
     (if internalHasRef resource \<or> \<not> isScratch resource then False
      else \<not> fRejectPendingIO \<or> \<not> internalHasPendingIO resource)"

text \<open>\<^verbatim>\<open>GrResourceCache::findAndRefScratchResource\<close>, from the source.\<close>

definition promote :: "nat option \<Rightarrow> GrResourceCache \<Rightarrow> error + (nat option \<times> GrResourceCache)" where
  "promote found c =
     (case found of
        None \<Rightarrow> Inr (None, c)
      | Some resource \<Rightarrow>
          (case refAndMakeResourceMRU resource c of
             Inl e \<Rightarrow> Inl e
           | Inr c' \<Rightarrow> Inr (Some resource, c')))"

definition findAndRefScratchResource ::
  "GrResourceKey \<Rightarrow> 32 word \<Rightarrow> GrResourceCache \<Rightarrow> error + (nat option \<times> GrResourceCache)" where
  "findAndRefScratchResource key flags c =
     (if flags AND (kPreferNoPendingIO_ScratchFlag OR kRequireNoPendingIO_ScratchFlag) \<noteq> 0 then
        (case scratchMapFind key (AvailableForScratchUse True) c of
           Some resource \<Rightarrow> promote (Some resource) c
         | None \<Rightarrow>
             if flags AND kRequireNoPendingIO_ScratchFlag \<noteq> 0 then Inr (None, c)
             else promote (scratchMapFind key (AvailableForScratchUse False) c) c)
      else promote (scratchMapFind key (AvailableForScratchUse False) c) c)"

text \<open>
  Modelled from the spec: \<^verbatim>\<open>findAndRefUniqueResource\<close> is declared in the header, outside
  the source at hand: it looks the resource up by its unique key and, when found,
  takes a reference on it and makes it most recently used.
  \<^verbatim>\<open>processInvalidUniqueKeys\<close> tests its result against null.
\<close>

definition findAndRefUniqueResource ::
  "GrResourceKey \<Rightarrow> GrResourceCache \<Rightarrow> error + (nat option \<times> GrResourceCache)" where
  "findAndRefUniqueResource key c = promote (uniqueHashFind key c) c"

subsection \<open>Keys\<close>

text \<open>
  \<^verbatim>\<open>GrResourceCache::willRemoveScratchKey\<close>, \<^verbatim>\<open>removeUniqueKey\<close> and \<^verbatim>\<open>changeUniqueKey\<close>, from
  the source. Modelled from the spec: the accessors that set and clear the unique key
  stored on a resource are outside the source at hand.
\<close>

definition willRemoveScratchKey :: "nat \<Rightarrow> GrResourceCache \<Rightarrow> GrResourceCache" where
  "willRemoveScratchKey r c = scratchMapRemove (scratchKey (objs c r)) r c"

definition resetUniqueKey :: "nat \<Rightarrow> GrResourceCache \<Rightarrow> GrResourceCache" where
  "resetUniqueKey r c = upd r (\<lambda>x. x\<lparr>uniqueKey := InvalidKey\<rparr>) c"

definition setUniqueKey :: "nat \<Rightarrow> GrResourceKey \<Rightarrow> GrResourceCache \<Rightarrow> GrResourceCache" where
  "setUniqueKey r k c = upd r (\<lambda>x. x\<lparr>uniqueKey := k\<rparr>) c"

definition removeUniqueKey :: "nat \<Rightarrow> GrResourceCache \<Rightarrow> GrResourceCache" where
  "removeUniqueKey r c =
     resetUniqueKey r
       (if isValid (uniqueKey (objs c r)) then uniqueHashRemove (uniqueKey (objs c r)) c else c)"

definition changeUniqueKey :: "nat \<Rightarrow> GrResourceKey \<Rightarrow> GrResourceCache \<Rightarrow> error + GrResourceCache" where
  "changeUniqueKey r newKey c =
     (let c1 = (if isValid (uniqueKey (objs c r))
                then uniqueHashRemove (uniqueKey (objs c r)) c else c)
      in if isValid newKey then
           (case (case uniqueHashFind newKey c1 of
                    Some old \<Rightarrow>
                      if \<not> isValid (scratchKey (objs c1 old)) \<and> isPurgeable (objs c1 old)
                      then release old c1
                      else Inr (resetUniqueKey old (uniqueHashRemove newKey c1))
                  | None \<Rightarrow> Inr c1) of
              Inl e \<Rightarrow> Inl e
            | Inr c2 \<Rightarrow> Inr (uniqueHashAdd r (setUniqueKey r newKey c2)))
         else Inr (resetUniqueKey r c1))"

subsection \<open>Budget changes and purgeability\<close>

text \<open>\<^verbatim>\<open>GrResourceCache::didChangeBudgetStatus\<close> and \<^verbatim>\<open>didChangeGpuMemorySize\<close>, from the source.\<close>

definition didChangeBudgetStatus :: "nat \<Rightarrow> GrResourceCache \<Rightarrow> error + GrResourceCache" where
  "didChangeBudgetStatus r c =
     (let size = gpuMemorySize (objs c r) in
      if budgeted (objs c r)
      then purgeAsNeeded (c\<lparr>fBudgetedCount := fBudgetedCount c + 1,
                             fBudgetedBytes := fBudgetedBytes c + size\<rparr>)
      else Inr (c\<lparr>fBudgetedCount := fBudgetedCount c - 1,
                   fBudgetedBytes := fBudgetedBytes c - size\<rparr>))"

definition didChangeGpuMemorySize :: "nat \<Rightarrow> 64 word \<Rightarrow> GrResourceCache \<Rightarrow> error + GrResourceCache" where
  "didChangeGpuMemorySize r oldSize c =
     (let delta = gpuMemorySize (objs c r) - oldSize;
          c1 = c\<lparr>fBytes := fBytes c + delta\<rparr>;
          c2 = (if budgeted (objs c1 r)
                then c1\<lparr>fBudgetedBytes := fBudgetedBytes c1 + delta\<rparr> else c1)
      in purgeAsNeeded c2)"

text \<open>
  Modelled from the spec: \<^verbatim>\<open>makeBudgeted\<close> of a resource is outside the source at hand;
  it marks the resource budgeted and the resource tells the cache that its budget
  status changed.
\<close>

definition makeBudgeted :: "nat \<Rightarrow> GrResourceCache \<Rightarrow> error + GrResourceCache" where
  "makeBudgeted r c = didChangeBudgetStatus r (upd r (\<lambda>x. x\<lparr>budgeted := True\<rparr>) c)"

text \<open>\<^verbatim>\<open>GrResourceCache::notifyPurgeable\<close>, from the source.\<close>

definition notifyPurgeable :: "nat \<Rightarrow> GrResourceCache \<Rightarrow> error + GrResourceCache" where
  "notifyPurgeable r c =
     (case removeFromNonpurgeableArray r c of
        Inl e \<Rightarrow> Inl e
      | Inr c0 \<Rightarrow>
          let c1 = queueInsert r c0 in
          if \<not> budgeted (objs c1 r) then
            (if \<not> wrapped (objs c1 r) \<and> isValid (scratchKey (objs c1 r)) \<and>
                fBudgetedCount c1 < fMaxCount c1 \<and>
                fBudgetedBytes c1 + gpuMemorySize (objs c1 r) \<le> fMaxBytes c1
             then makeBudgeted r c1
             else release r c1)
          else
            (let noKey = (\<not> isValid (scratchKey (objs c1 r)) \<and> \<not> isValid (uniqueKey (objs c1 r)))
             in if \<not> overBudget c1 \<and> \<not> noKey then Inr c1 else release r c1))"

text \<open>
  Modelled from the spec: \<^verbatim>\<open>unref\<close> of a resource is outside the source at hand; it
  drops an external reference, and the resource calls \<^verbatim>\<open>notifyPurgeable\<close> when its
  external reference count reaches zero.
\<close>

definition unref :: "nat \<Rightarrow> GrResourceCache \<Rightarrow> error + GrResourceCache" where
  "unref r c =
     (if refCnt (objs c r) = 0 then Inl BadUnref
      else let c1 = upd r (\<lambda>x. x\<lparr>refCnt := refCnt x - 1\<rparr>) c in
        if isPurgeable (objs c1 r) then notifyPurgeable r c1 else Inr c1)"

text \<open>
  \<^verbatim>\<open>GrResourceCache::processInvalidUniqueKeys\<close>, from the source; a message carries a
  unique key. The resource's own \<^verbatim>\<open>removeUniqueKey\<close> goes through the cache's.
\<close>

fun processInvalidUniqueKeys :: "GrResourceKey list \<Rightarrow> GrResourceCache \<Rightarrow> error + GrResourceCache" where
  "processInvalidUniqueKeys [] c = Inr c"
| "processInvalidUniqueKeys (key # msgs) c =
     (case findAndRefUniqueResource key c of
        Inl e \<Rightarrow> Inl e
      | Inr (None, c1) \<Rightarrow> processInvalidUniqueKeys msgs c1
      | Inr (Some resource, c1) \<Rightarrow>
          (case unref resource (removeUniqueKey resource c1) of
             Inl e \<Rightarrow> Inl e
           | Inr c2 \<Rightarrow> processInvalidUniqueKeys msgs c2))"

section \<open>Back-indices under the partition operations\<close>

definition pqIdxExcept :: "nat \<Rightarrow> GrResourceCache \<Rightarrow> bool" where
  "pqIdxExcept i c = (\<forall>j<length (fPurgeableQueue c). j \<noteq> i \<longrightarrow>
      cacheArrayIndex (objs c (fPurgeableQueue c ! j)) = int j)"

definition pqIdx :: "GrResourceCache \<Rightarrow> bool" where
  "pqIdx c = (\<forall>j<length (fPurgeableQueue c).
      cacheArrayIndex (objs c (fPurgeableQueue c ! j)) = int j)"

lemma objs_setIndex:
  "objs (setIndex i c) = (objs c)(fPurgeableQueue c ! i :=
      (objs c (fPurgeableQueue c ! i))\<lparr>cacheArrayIndex := int i\<rparr>)"
  by (simp add: setIndex_def setCacheIndex_def upd_def)

lemma pqIdx_setIndex:
  assumes "i < length (fPurgeableQueue c)" "distinct (fPurgeableQueue c)" "pqIdxExcept i c"
  shows "pqIdx (setIndex i c)"
  using assms unfolding pqIdx_def pqIdxExcept_def
  by (auto simp: objs_setIndex nth_eq_iff_index_eq)

lemma swap_step:
  assumes i: "i < length (fPurgeableQueue c)" and j: "j < length (fPurgeableQueue c)"
    and ij: "i \<noteq> j" and d: "distinct (fPurgeableQueue c)" and ok: "pqIdxExcept i c"
  shows "pqIdxExcept j (setIndex i (swapQ i j c))"
    "distinct (fPurgeableQueue (setIndex i (swapQ i j c)))"
    "mset (fPurgeableQueue (setIndex i (swapQ i j c))) = mset (fPurgeableQueue c)"
    "\<forall>r. r \<notin> set (fPurgeableQueue c) \<longrightarrow> objs (setIndex i (swapQ i j c)) r = objs c r"
proof -
  let ?q = "fPurgeableQueue c"
  show "pqIdxExcept j (setIndex i (swapQ i j c))"
    using assms unfolding pqIdxExcept_def
    by (auto simp: objs_setIndex nth_list_update nth_eq_iff_index_eq)
  show "distinct (fPurgeableQueue (setIndex i (swapQ i j c)))"
    using i j d by (simp add: distinct_swap)
  show "mset (fPurgeableQueue (setIndex i (swapQ i j c))) = mset ?q"
    using i j by (simp add: mset_swap)
  show "\<forall>r. r \<notin> set ?q \<longrightarrow> objs (setIndex i (swapQ i j c)) r = objs c r"
    using i j ij by (auto simp: objs_setIndex nth_list_update)
qed


definition pqSifted :: "GrResourceCache \<Rightarrow> GrResourceCache \<Rightarrow> bool" where
  "pqSifted c c' = (pqIdx c' \<and> distinct (fPurgeableQueue c') \<and>
     mset (fPurgeableQueue c') = mset (fPurgeableQueue c) \<and>
     (\<forall>r. r \<notin> set (fPurgeableQueue c) \<longrightarrow> objs c' r = objs c r))"

lemma pqSifted_step:
  assumes "mset (fPurgeableQueue c1) = mset (fPurgeableQueue c)"
    "\<forall>r. r \<notin> set (fPurgeableQueue c) \<longrightarrow> objs c1 r = objs c r"
    "pqSifted c1 c'"
  shows "pqSifted c c'"
proof -
  have "set (fPurgeableQueue c1) = set (fPurgeableQueue c)"
    using assms(1) by (rule mset_eq_setD)
  then show ?thesis using assms unfolding pqSifted_def by auto
qed

lemma pqSifted_setIndex:
  assumes "i < length (fPurgeableQueue c)" "distinct (fPurgeableQueue c)" "pqIdxExcept i c"
  shows "pqSifted c (setIndex i c)"
  unfolding pqSifted_def using pqIdx_setIndex [OF assms] assms
  by (auto simp: objs_setIndex)

lemma parentOf_less: "i \<noteq> 0 \<Longrightarrow> parentOf i < i"
  by (simp add: parentOf_def)

lemma percolateUp_idx:
  "i < length (fPurgeableQueue c) \<Longrightarrow> distinct (fPurgeableQueue c) \<Longrightarrow> pqIdxExcept i c \<Longrightarrow>
     pqSifted c (percolateUp i c)"
proof (induction i c rule: percolateUp.induct)
  case (1 i c)
  let ?p = "parentOf i"
  let ?c1 = "setIndex i (swapQ i ?p c)"
  show ?case
  proof (cases "i \<noteq> 0 \<and> CompareTimestamp c (fPurgeableQueue c ! i) (fPurgeableQueue c ! ?p)")
    case True
    then have p: "?p < i" by (simp add: parentOf_less)
    with "1.prems" have pl: "?p < length (fPurgeableQueue c)" and ne: "i \<noteq> ?p" by auto
    note st = swap_step [OF "1.prems"(1) pl ne "1.prems"(2,3)]
    have "pqSifted ?c1 (percolateUp ?p ?c1)"
      using "1.IH" True pl st(1,2) by simp
    from pqSifted_step [OF st(3,4) this] True show ?thesis
      by (subst percolateUp.simps) simp
  next
    case False
    then have "percolateUp i c = setIndex i c"
      by (subst percolateUp.simps) auto
    with pqSifted_setIndex [OF "1.prems"] show ?thesis by simp
  qed
qed

lemma smallerChild_bounds:
  "\<not> length (fPurgeableQueue c) \<le> 2 * i + 1 \<Longrightarrow>
     i < smallerChild i c \<and> smallerChild i c < length (fPurgeableQueue c)"
  by (auto simp: smallerChild_def Let_def)

lemma swap_step':
  assumes i: "i < length (fPurgeableQueue c)" and j: "j < length (fPurgeableQueue c)"
    and ij: "i \<noteq> j" and d: "distinct (fPurgeableQueue c)" and ok: "pqIdxExcept i c"
  shows "pqIdxExcept j (setIndex i (swapQ j i c))"
    "distinct (fPurgeableQueue (setIndex i (swapQ j i c)))"
    "mset (fPurgeableQueue (setIndex i (swapQ j i c))) = mset (fPurgeableQueue c)"
    "\<forall>r. r \<notin> set (fPurgeableQueue c) \<longrightarrow> objs (setIndex i (swapQ j i c)) r = objs c r"
proof -
  have "swapQ j i c = swapQ i j c"
    using i j ij by (simp add: swapQ_def Let_def list_update_swap)
  then show "pqIdxExcept j (setIndex i (swapQ j i c))"
    "distinct (fPurgeableQueue (setIndex i (swapQ j i c)))"
    "mset (fPurgeableQueue (setIndex i (swapQ j i c))) = mset (fPurgeableQueue c)"
    "\<forall>r. r \<notin> set (fPurgeableQueue c) \<longrightarrow> objs (setIndex i (swapQ j i c)) r = objs c r"
    using swap_step [OF assms] by simp_all
qed

lemma percolateDown_idx:
  "i < length (fPurgeableQueue c) \<Longrightarrow> distinct (fPurgeableQueue c) \<Longrightarrow> pqIdxExcept i c \<Longrightarrow>
     pqSifted c (percolateDown i c)"
proof (induction i c rule: percolateDown.induct)
  case (1 i c)
  let ?ch = "smallerChild i c"
  let ?c1 = "setIndex i (swapQ ?ch i c)"
  show ?case
  proof (cases "\<not> length (fPurgeableQueue c) \<le> 2 * i + 1 \<and>
      CompareTimestamp c (fPurgeableQueue c ! ?ch) (fPurgeableQueue c ! i)")
    case True
    then have b: "i < ?ch" "?ch < length (fPurgeableQueue c)"
      using smallerChild_bounds [of c i] by auto
    then have ne: "i \<noteq> ?ch" by simp
    note st = swap_step' [OF "1.prems"(1) b(2) ne "1.prems"(2,3)]
    have "pqSifted ?c1 (percolateDown ?ch ?c1)"
      using "1.IH" True b st(1,2) by simp
    from pqSifted_step [OF st(3,4) this] True show ?thesis
      by (subst percolateDown.simps) simp
  next
    case False
    then have "percolateDown i c = setIndex i c"
      by (subst percolateDown.simps) auto
    with pqSifted_setIndex [OF "1.prems"] show ?thesis by simp
  qed
qed


lemma pqIdx_distinct: "pqIdx c \<Longrightarrow> distinct (fPurgeableQueue c)"
  unfolding pqIdx_def distinct_conv_nth
  by (metis of_nat_eq_iff)

lemma pqIdx_imp_except: "pqIdx c \<Longrightarrow> pqIdxExcept i c"
  by (simp add: pqIdx_def pqIdxExcept_def)

lemma queueInsert_idx:
  assumes ok: "pqIdx c" and new: "r \<notin> set (fPurgeableQueue c)"
  shows "pqIdx (queueInsert r c)"
    "mset (fPurgeableQueue (queueInsert r c)) = add_mset r (mset (fPurgeableQueue c))"
    "\<forall>x. x \<notin> set (fPurgeableQueue c) \<and> x \<noteq> r \<longrightarrow> objs (queueInsert r c) x = objs c x"
proof -
  let ?n = "length (fPurgeableQueue c)"
  let ?c0 = "c\<lparr>fPurgeableQueue := fPurgeableQueue c @ [r]\<rparr>"
  let ?c1 = "setIndex ?n ?c0"
  have d: "distinct (fPurgeableQueue ?c1)"
    using pqIdx_distinct [OF ok] new by simp
  have ex: "pqIdxExcept ?n ?c1"
    using ok new unfolding pqIdx_def pqIdxExcept_def
    by (auto simp: objs_setIndex nth_append less_Suc_eq)
  have "pqSifted ?c1 (percolateUp ?n ?c1)"
    by (rule percolateUp_idx [OF _ d ex]) simp
  then have s: "pqSifted ?c1 (queueInsert r c)"
    by (simp add: queueInsert_def Let_def)
  from s show "pqIdx (queueInsert r c)" by (simp add: pqSifted_def)
  from s show "mset (fPurgeableQueue (queueInsert r c)) = add_mset r (mset (fPurgeableQueue c))"
    by (simp add: pqSifted_def)
  from s show "\<forall>x. x \<notin> set (fPurgeableQueue c) \<and> x \<noteq> r \<longrightarrow> objs (queueInsert r c) x = objs c x"
    by (auto simp: pqSifted_def objs_setIndex)
qed

lemma mset_butlast_update:
  assumes "i < length q" "i \<noteq> length q - 1"
  shows "mset ((butlast q)[i := last q]) = mset q - {#q ! i#}"
proof -
  from assms have ne: "q \<noteq> []" by auto
  then have q: "q = butlast q @ [last q]" by simp
  from assms have ib: "i < length (butlast q)" by simp
  have qi: "butlast q ! i = q ! i" using ib by (simp add: nth_butlast)
  have mem: "q ! i \<in># mset (butlast q)" using ib qi by (metis nth_mem_mset)
  have "mset ((butlast q)[i := last q]) = add_mset (last q) (mset (butlast q) - {#q ! i#})"
    using ib qi by (simp add: mset_update)
  also have "\<dots> = add_mset (last q) (mset (butlast q)) - {#q ! i#}"
    using mem by simp
  also have "add_mset (last q) (mset (butlast q)) = mset q"
    by (subst (2) q) simp
  finally show ?thesis .
qed


lemma distinct_butlast_update:
  assumes "distinct q" "i < length q" "i \<noteq> length q - 1"
  shows "distinct ((butlast q)[i := last q])"
proof -
  from assms have ne: "q \<noteq> []" by auto
  then have q: "q = butlast q @ [last q]" by simp
  have "distinct (butlast q @ [last q])" using assms(1) q by simp
  then have "distinct (butlast q)" "last q \<notin> set (butlast q)" by auto
  then show ?thesis by (simp add: distinct_list_update)
qed

lemma queueRemoveAt_idx:
  assumes ok: "pqIdx c" and i: "i < length (fPurgeableQueue c)"
  shows "pqIdx (queueRemoveAt i c)"
    "mset (fPurgeableQueue (queueRemoveAt i c)) = mset (fPurgeableQueue c) - {#fPurgeableQueue c ! i#}"
    "\<forall>x. x \<notin> set (fPurgeableQueue (queueRemoveAt i c)) \<longrightarrow> objs (queueRemoveAt i c) x = objs c x"
proof -
  let ?q = "fPurgeableQueue c"
  have d: "distinct ?q" using ok by (rule pqIdx_distinct)
  have "pqIdx (queueRemoveAt i c) \<and>
    mset (fPurgeableQueue (queueRemoveAt i c)) = mset ?q - {#?q ! i#} \<and>
    (\<forall>x. x \<notin> set (fPurgeableQueue (queueRemoveAt i c)) \<longrightarrow> objs (queueRemoveAt i c) x = objs c x)"
  proof (cases "i = length ?q - 1")
    case True
    have ne: "?q \<noteq> []" using i by auto
    have e: "queueRemoveAt i c = c\<lparr>fPurgeableQueue := butlast ?q\<rparr>"
      using True by (simp add: queueRemoveAt_def Let_def)
    have "pqIdx (c\<lparr>fPurgeableQueue := butlast ?q\<rparr>)"
      using ok by (auto simp: pqIdx_def nth_butlast)
    moreover have "mset (butlast ?q) = mset ?q - {#?q ! i#}"
      using True ne by (metis add_mset_remove_trivial append_butlast_last_id last_conv_nth
          mset.simps(2) mset_append union_mset_add_mset_right add.right_neutral mset.simps(1))
    ultimately show ?thesis using e by simp
  next
    case False
    let ?c0 = "c\<lparr>fPurgeableQueue := (butlast ?q)[i := last ?q]\<rparr>"
    let ?c1 = "setIndex i ?c0"
    have ib: "i < length (butlast ?q)" using i False by simp
    have m0: "mset (fPurgeableQueue ?c0) = mset ?q - {#?q ! i#}"
      using mset_butlast_update [OF i False] by simp
    have d0: "distinct (fPurgeableQueue ?c0)"
      using distinct_butlast_update [OF d i False] by simp
    have lastq: "last ?q = ?q ! (length ?q - 1)"
      using i by (metis last_conv_nth list.size(3) not_less_zero)
    have ex0: "pqIdxExcept i ?c0"
      using ok unfolding pqIdx_def pqIdxExcept_def
      by (auto simp: nth_list_update nth_butlast)
    have s1: "pqSifted ?c0 ?c1"
      using pqSifted_setIndex [of i ?c0] ib d0 ex0 by simp
    then have ex1: "pqIdxExcept i ?c1" and d1: "distinct (fPurgeableQueue ?c1)"
      by (auto simp: pqSifted_def intro: pqIdx_imp_except)
    have s2: "pqSifted ?c1 (percolateDown i ?c1)"
      using percolateDown_idx [of i ?c1] ib d1 ex1 by simp
    let ?c2 = "percolateDown i ?c1"
    from s2 have ex2: "pqIdxExcept i ?c2" and d2: "distinct (fPurgeableQueue ?c2)"
      by (auto simp: pqSifted_def intro: pqIdx_imp_except)
    have s3: "pqSifted ?c2 (percolateUp i ?c2)"
      using percolateUp_idx [of i ?c2] ib d2 ex2 by simp
    have e: "queueRemoveAt i c = percolateUp i ?c2"
      using False by (simp add: queueRemoveAt_def Let_def)
    have "pqSifted ?c0 (queueRemoveAt i c)"
      unfolding e using s1 s2 s3
      by (meson pqSifted_def pqSifted_step)
    moreover from this m0 have "set (fPurgeableQueue (queueRemoveAt i c)) = set (fPurgeableQueue ?c0)"
      unfolding pqSifted_def by (metis mset_eq_setD)
    ultimately show ?thesis using m0
      by (auto simp: pqSifted_def)
  qed
  then show "pqIdx (queueRemoveAt i c)"
    "mset (fPurgeableQueue (queueRemoveAt i c)) = mset (fPurgeableQueue c) - {#fPurgeableQueue c ! i#}"
    "\<forall>x. x \<notin> set (fPurgeableQueue (queueRemoveAt i c)) \<longrightarrow> objs (queueRemoveAt i c) x = objs c x"
    by blast+
qed


definition npIdx :: "GrResourceCache \<Rightarrow> bool" where
  "npIdx c = (\<forall>j<length (fNonpurgeableResources c).
      cacheArrayIndex (objs c (fNonpurgeableResources c ! j)) = int j)"

lemma npIdx_distinct: "npIdx c \<Longrightarrow> distinct (fNonpurgeableResources c)"
  unfolding npIdx_def distinct_conv_nth
  by (metis of_nat_eq_iff)

lemma pqIdx_cong:
  "fPurgeableQueue c' = fPurgeableQueue c \<Longrightarrow> (\<forall>x\<in>set (fPurgeableQueue c). cacheArrayIndex (objs c' x) = cacheArrayIndex (objs c x)) \<Longrightarrow> pqIdx c' = pqIdx c"
  by (simp add: pqIdx_def)

lemma npIdx_cong:
  "fNonpurgeableResources c' = fNonpurgeableResources c \<Longrightarrow> (\<forall>x\<in>set (fNonpurgeableResources c). cacheArrayIndex (objs c' x) = cacheArrayIndex (objs c x)) \<Longrightarrow> npIdx c' = npIdx c"
  by (simp add: npIdx_def)

lemma pqIdx_index:
  "pqIdx c \<Longrightarrow> r \<in> set (fPurgeableQueue c) \<Longrightarrow>
     \<exists>i<length (fPurgeableQueue c). fPurgeableQueue c ! i = r \<and> cacheArrayIndex (objs c r) = int i"
  by (auto simp: pqIdx_def in_set_conv_nth)

lemma npIdx_index:
  "npIdx c \<Longrightarrow> r \<in> set (fNonpurgeableResources c) \<Longrightarrow>
     \<exists>i<length (fNonpurgeableResources c). fNonpurgeableResources c ! i = r \<and> cacheArrayIndex (objs c r) = int i"
  by (auto simp: npIdx_def in_set_conv_nth)

text \<open>Adding to and removing from the nonpurgeable array.\<close>

lemma addToNonpurgeableArray_simps [simp]:
  "fNonpurgeableResources (addToNonpurgeableArray r c) = fNonpurgeableResources c @ [r]"
  "fPurgeableQueue (addToNonpurgeableArray r c) = fPurgeableQueue c"
  "objs (addToNonpurgeableArray r c) = (objs c)(r := (objs c r)\<lparr>cacheArrayIndex := int (length (fNonpurgeableResources c))\<rparr>)"
  by (simp_all add: addToNonpurgeableArray_def Let_def setCacheIndex_def upd_def)

lemma addToNonpurgeableArray_idx:
  assumes "npIdx c" "r \<notin> set (fNonpurgeableResources c)"
  shows "npIdx (addToNonpurgeableArray r c)"
  using assms unfolding npIdx_def
  by (auto simp: nth_append less_Suc_eq)

lemma removeFromNonpurgeableArray_idx:
  assumes ok: "npIdx c" and r: "r \<in> set (fNonpurgeableResources c)"
  obtains c' where "removeFromNonpurgeableArray r c = Inr c'" "npIdx c'"
    "set (fNonpurgeableResources c') = set (fNonpurgeableResources c) - {r}"
    "fPurgeableQueue c' = fPurgeableQueue c"
    "\<forall>x. x \<notin> set (fNonpurgeableResources c') \<longrightarrow> objs c' x = objs c x"
proof -
  let ?a = "fNonpurgeableResources c"
  from npIdx_index [OF ok r] obtain i where i: "i < length ?a" "?a ! i = r"
    "cacheArrayIndex (objs c r) = int i" by blast
  have d: "distinct ?a" using ok by (rule npIdx_distinct)
  have ne: "?a \<noteq> []" using r by auto
  define c' where "c' = (setCacheIndex (last ?a) (int i) (c\<lparr>fNonpurgeableResources := ?a[i := last ?a]\<rparr>))
      \<lparr>fNonpurgeableResources := butlast (?a[i := last ?a])\<rparr>"
  have e: "removeFromNonpurgeableArray r c = Inr c'"
    using i ne by (simp add: removeFromNonpurgeableArray_def Let_def c'_def setCacheIndex_def upd_def)
  have np': "fNonpurgeableResources c' = butlast (?a[i := last ?a])"
    by (simp add: c'_def)
  have objs': "objs c' = (objs c)(last ?a := (objs c (last ?a))\<lparr>cacheArrayIndex := int i\<rparr>)"
    by (simp add: c'_def setCacheIndex_def upd_def)
  have lastq: "last ?a = ?a ! (length ?a - 1)" using ne by (rule last_conv_nth)
  have m: "mset (butlast (?a[i := last ?a])) = mset ?a - {#r#}"
  proof (cases "i = length ?a - 1")
    case True
    then have "?a[i := last ?a] = ?a" using lastq by (metis list_update_id)
    moreover have "last ?a = r" using True i lastq by simp
    moreover have "mset (butlast ?a) = mset ?a - {#last ?a#}"
      using ne by (metis add_mset_remove_trivial append_butlast_last_id mset.simps(2) mset_append
          union_mset_add_mset_right add.right_neutral mset.simps(1))
    ultimately show ?thesis by simp
  next
    case False
    then show ?thesis
      using mset_butlast_update [OF i(1) False] i(2) by (simp add: butlast_list_update)
  qed
  have set': "set (fNonpurgeableResources c') = set ?a - {r}"
  proof -
    have "mset (fNonpurgeableResources c') = mset (remove1 r ?a)" using m np' by simp
    then have "set (fNonpurgeableResources c') = set (remove1 r ?a)" by (rule mset_eq_setD)
    then show ?thesis using d by simp
  qed
  have idx': "npIdx c'"
    unfolding npIdx_def np' objs'
  proof (intro allI impI)
    fix j assume j: "j < length (butlast (?a[i := last ?a]))"
    then have jl: "j < length ?a - 1" by simp
    have nth: "butlast (?a[i := last ?a]) ! j = (if j = i then last ?a else ?a ! j)"
      using jl by (simp add: nth_butlast nth_list_update)
    show "cacheArrayIndex (((objs c)(last ?a := (objs c (last ?a))\<lparr>cacheArrayIndex := int i\<rparr>))
        (butlast (?a[i := last ?a]) ! j)) = int j"
    proof (cases "j = i")
      case True
      then show ?thesis using nth by simp
    next
      case False
      have "?a ! j \<noteq> last ?a"
        using d jl lastq ne by (simp add: nth_eq_iff_index_eq)
      moreover have "cacheArrayIndex (objs c (?a ! j)) = int j"
        using ok jl by (simp add: npIdx_def)
      ultimately show ?thesis using nth False by simp
    qed
  qed
  have fr: "\<forall>x. x \<notin> set (fNonpurgeableResources c') \<longrightarrow> objs c' x = objs c x"
  proof (intro allI impI)
    fix x assume x: "x \<notin> set (fNonpurgeableResources c')"
    show "objs c' x = objs c x"
    proof (cases "x = last ?a")
      case True
      then have "x \<in> set ?a" using ne by simp
      with x set' have "x = r" by simp
      with True i lastq d have "i = length ?a - 1"
        using ne by (metis diff_less length_greater_0_conv nth_eq_iff_index_eq zero_less_one)
      then show ?thesis using True i objs' \<open>x = r\<close> by auto
    next
      case False
      then show ?thesis by (simp add: objs')
    qed
  qed
  have q': "fPurgeableQueue c' = fPurgeableQueue c"
    by (simp add: c'_def setCacheIndex_def upd_def)
  from e idx' set' q' fr show ?thesis by (rule that)
qed


lemma queueRemove_idx:
  assumes ok: "pqIdx c" and r: "r \<in> set (fPurgeableQueue c)"
  obtains c' where "queueRemove r c = Inr c'" "pqIdx c'"
    "set (fPurgeableQueue c') = set (fPurgeableQueue c) - {r}"
    "fNonpurgeableResources c' = fNonpurgeableResources c"
    "\<forall>x. x \<notin> set (fPurgeableQueue c') \<longrightarrow> objs c' x = objs c x"
proof -
  let ?q = "fPurgeableQueue c"
  from pqIdx_index [OF ok r] obtain i where i: "i < length ?q" "?q ! i = r"
    "cacheArrayIndex (objs c r) = int i" by blast
  have e: "queueRemove r c = Inr (queueRemoveAt i c)"
    using i by (simp add: queueRemove_def Let_def)
  note s = queueRemoveAt_idx [OF ok i(1)]
  have "mset (fPurgeableQueue (queueRemoveAt i c)) = mset (remove1 r ?q)"
    using s(2) i(2) by simp
  then have "set (fPurgeableQueue (queueRemoveAt i c)) = set (remove1 r ?q)" by (rule mset_eq_setD)
  then have st: "set (fPurgeableQueue (queueRemoveAt i c)) = set ?q - {r}"
    using pqIdx_distinct [OF ok] by simp
  show ?thesis by (rule that [OF e s(1) st _ s(3)]) simp
qed

text \<open>Changes confined to the two partitions and the stored back-indices.\<close>

definition idxFrame :: "GrResourceCache \<Rightarrow> GrResourceCache \<Rightarrow> bool" where
  "idxFrame c c' = (\<exists>q n f. c' = c\<lparr>fPurgeableQueue := q, fNonpurgeableResources := n,
       objs := (\<lambda>r. (objs c r)\<lparr>cacheArrayIndex := f r\<rparr>)\<rparr>)"

lemma idxFrame_refl: "idxFrame c c"
  unfolding idxFrame_def
  by (rule exI [of _ "fPurgeableQueue c"], rule exI [of _ "fNonpurgeableResources c"],
      rule exI [of _ "\<lambda>r. cacheArrayIndex (objs c r)"]) simp

lemma idxFrame_trans: "idxFrame a b \<Longrightarrow> idxFrame b c \<Longrightarrow> idxFrame a c"
  unfolding idxFrame_def by clarsimp blast

lemma heapFrame_idxFrame: "heapFrame c c' \<Longrightarrow> idxFrame c c'"
  unfolding heapFrame_def idxFrame_def
  by clarsimp (metis GrResourceCache.update_convs(10) GrResourceCache.surjective)

lemma idxFrame_fields:
  assumes "idxFrame c c'"
  shows "fTimestamp c' = fTimestamp c" "fMaxCount c' = fMaxCount c" "fMaxBytes c' = fMaxBytes c"
    "fBytes c' = fBytes c" "fBudgetedCount c' = fBudgetedCount c"
    "fBudgetedBytes c' = fBudgetedBytes c" "fOverBudgetCB c' = fOverBudgetCB c"
    "fOverBudgetData c' = fOverBudgetData c"
    "fScratchMap c' = fScratchMap c" "fUniqueHash c' = fUniqueHash c" "events c' = events c"
    "timestamp (objs c' r) = timestamp (objs c r)" "refCnt (objs c' r) = refCnt (objs c r)"
    "pendingIO (objs c' r) = pendingIO (objs c r)"
    "gpuMemorySize (objs c' r) = gpuMemorySize (objs c r)"
    "scratchKey (objs c' r) = scratchKey (objs c r)" "uniqueKey (objs c' r) = uniqueKey (objs c r)"
    "budgeted (objs c' r) = budgeted (objs c r)" "wrapped (objs c' r) = wrapped (objs c r)"
    "destroyed (objs c' r) = destroyed (objs c r)" "gpuFreed (objs c' r) = gpuFreed (objs c r)"
    "isPurgeable (objs c' r) = isPurgeable (objs c r)"
  using assms unfolding idxFrame_def isPurgeable_def internalHasRef_def by auto

lemma idxFrame_addToNonpurgeableArray: "idxFrame c (addToNonpurgeableArray r c)"
  unfolding idxFrame_def addToNonpurgeableArray_def Let_def setCacheIndex_def upd_def
  by (rule exI [of _ "fPurgeableQueue c"], rule exI [of _ "fNonpurgeableResources c @ [r]"],
      rule exI [of _ "\<lambda>x. if x = r then int (length (fNonpurgeableResources c)) else cacheArrayIndex (objs c x)"])
     (auto intro!: GrResourceCache.equality)

lemma idxFrame_removeFromNonpurgeableArray:
  assumes "removeFromNonpurgeableArray r c = Inr c'"
  shows "idxFrame c c'"
proof -
  let ?a = "fNonpurgeableResources c"
  let ?i = "cacheArrayIndex (objs c r)"
  from assms have c': "c' = (setCacheIndex (last ?a) ?i (c\<lparr>fNonpurgeableResources := ?a[nat ?i := last ?a]\<rparr>))
      \<lparr>fNonpurgeableResources := butlast (?a[nat ?i := last ?a])\<rparr>"
    by (auto simp: removeFromNonpurgeableArray_def Let_def setCacheIndex_def upd_def split: if_splits)
  show ?thesis
    unfolding idxFrame_def c' setCacheIndex_def upd_def
    by (rule exI [of _ "fPurgeableQueue c"], rule exI [of _ "butlast (?a[nat ?i := last ?a])"],
        rule exI [of _ "\<lambda>x. if x = last ?a then ?i else cacheArrayIndex (objs c x)"])
       (auto intro!: GrResourceCache.equality)
qed

lemma idxFrame_queueRemove:
  assumes "queueRemove r c = Inr c'"
  shows "idxFrame c c'"
  using assms heapFrame_idxFrame [OF heapFrame_queueRemoveAt]
  by (auto simp: queueRemove_def Let_def split: if_splits)

section \<open>Properties\<close>

subsection \<open>Example data\<close>

text \<open>A budgeted, referenced scratch resource of 100 bytes, and a store that holds it everywhere.\<close>

definition exResource :: GrGpuResource where
  "exResource = \<lparr>timestamp = 0, cacheArrayIndex = -1, refCnt = 1, pendingIO = False,
     gpuMemorySize = 100, scratchKey = Key 7, uniqueKey = InvalidKey, budgeted = True,
     wrapped = False, destroyed = False, gpuFreed = False\<rparr>"

definition exStore :: "nat \<Rightarrow> GrGpuResource" where
  "exStore = (\<lambda>r. exResource)"

subsection \<open>Removal of a tracked resource\<close>

definition tracked :: "GrResourceCache \<Rightarrow> nat set" where
  "tracked c = set (fPurgeableQueue c) \<union> set (fNonpurgeableResources c)"

definition partsOk :: "GrResourceCache \<Rightarrow> bool" where
  "partsOk c = (npIdx c \<and> pqIdx c \<and> set (fPurgeableQueue c) \<inter> set (fNonpurgeableResources c) = {})"

text \<open>The bookkeeping of \<^verbatim>\<open>removeResource\<close> after the resource has left its partition.\<close>

definition unaccounted :: "nat \<Rightarrow> GrResourceCache \<Rightarrow> GrResourceCache \<Rightarrow> GrResourceCache" where
  "unaccounted r c c1 = c1\<lparr>
     fBytes := fBytes c - gpuMemorySize (objs c r),
     fBudgetedCount := (if budgeted (objs c r) then fBudgetedCount c - 1 else fBudgetedCount c),
     fBudgetedBytes := (if budgeted (objs c r) then fBudgetedBytes c - gpuMemorySize (objs c r)
                        else fBudgetedBytes c),
     fScratchMap := (if isValid (scratchKey (objs c r))
                     then remove1 (scratchKey (objs c r), r) (fScratchMap c) else fScratchMap c),
     fUniqueHash := (if isValid (uniqueKey (objs c r))
                     then filter (\<lambda>e. fst e \<noteq> uniqueKey (objs c r)) (fUniqueHash c)
                     else fUniqueHash c)\<rparr>"

lemma removeResource_Inr:
  assumes "removeResource r c = Inr c'"
  obtains c1 where
    "(if isPurgeable (objs c r) then queueRemove r c else removeFromNonpurgeableArray r c) = Inr c1"
    "idxFrame c c1" "c' = unaccounted r c c1"
proof -
  from assms obtain c1 where
    c1: "(if isPurgeable (objs c r) then queueRemove r c else removeFromNonpurgeableArray r c) = Inr c1"
    by (auto simp: removeResource_def split: sum.splits)
  then have fr: "idxFrame c c1"
    by (auto split: if_splits intro: idxFrame_queueRemove idxFrame_removeFromNonpurgeableArray)
  note f = idxFrame_fields [OF fr]
  have "removeResource r c = Inr (unaccounted r c c1)"
    unfolding removeResource_def c1
    by (simp add: Let_def unaccounted_def scratchMapRemove_def uniqueHashRemove_def f)
  with assms have "c' = unaccounted r c c1" by simp
  with c1 fr show ?thesis by (rule that)
qed

lemma unaccounted_simps [simp]:
  "fPurgeableQueue (unaccounted r c c1) = fPurgeableQueue c1"
  "fNonpurgeableResources (unaccounted r c c1) = fNonpurgeableResources c1"
  "objs (unaccounted r c c1) = objs c1"
  "fTimestamp (unaccounted r c c1) = fTimestamp c1"
  "fMaxCount (unaccounted r c c1) = fMaxCount c1"
  "fMaxBytes (unaccounted r c c1) = fMaxBytes c1"
  "fOverBudgetCB (unaccounted r c c1) = fOverBudgetCB c1"
  "fOverBudgetData (unaccounted r c c1) = fOverBudgetData c1"
  "events (unaccounted r c c1) = events c1"
  by (simp_all add: unaccounted_def)

lemma pqIdx_unaccounted [simp]: "pqIdx (unaccounted r c c1) = pqIdx c1"
  by (simp add: pqIdx_def)

lemma npIdx_unaccounted [simp]: "npIdx (unaccounted r c c1) = npIdx c1"
  by (simp add: npIdx_def)

lemma removeResource_partitions:
  assumes ok: "partsOk c" and r: "r \<in> tracked c"
    and p: "isPurgeable (objs c r) \<longleftrightarrow> r \<in> set (fPurgeableQueue c)"
  obtains c1 where "removeResource r c = Inr (unaccounted r c c1)" "idxFrame c c1"
    "partsOk c1"
    "set (fPurgeableQueue c1) = set (fPurgeableQueue c) - {r}"
    "set (fNonpurgeableResources c1) = set (fNonpurgeableResources c) - {r}"
    "\<forall>x. x \<notin> tracked c1 \<longrightarrow> objs c1 x = objs c x"
    "(if r \<in> set (fPurgeableQueue c) then queueRemove r c
      else removeFromNonpurgeableArray r c) = Inr c1"
proof (cases "r \<in> set (fPurgeableQueue c)")
  case True
  from ok have pq: "pqIdx c" and np: "npIdx c"
    and dj: "set (fPurgeableQueue c) \<inter> set (fNonpurgeableResources c) = {}"
    by (auto simp: partsOk_def)
  from queueRemove_idx [OF pq True] obtain c1 where c1: "queueRemove r c = Inr c1" "pqIdx c1"
    "set (fPurgeableQueue c1) = set (fPurgeableQueue c) - {r}"
    "fNonpurgeableResources c1 = fNonpurgeableResources c"
    "\<forall>x. x \<notin> set (fPurgeableQueue c1) \<longrightarrow> objs c1 x = objs c x" by blast
  have fr: "idxFrame c c1" using c1(1) by (rule idxFrame_queueRemove)
  have e: "removeResource r c = Inr (unaccounted r c c1)"
    using True p c1(1)
    by (simp add: removeResource_def Let_def unaccounted_def scratchMapRemove_def
          uniqueHashRemove_def idxFrame_fields [OF fr])
  have np1: "npIdx c1"
    using np c1(3,4,5) dj by (subst npIdx_cong [of c1 c]) auto
  have "partsOk c1" using c1 np1 dj by (auto simp: partsOk_def)
  moreover have "set (fNonpurgeableResources c1) = set (fNonpurgeableResources c) - {r}"
    using c1(4) True dj by auto
  moreover have "\<forall>x. x \<notin> tracked c1 \<longrightarrow> objs c1 x = objs c x"
    using c1(5) by (simp add: tracked_def)
  ultimately show ?thesis using e fr c1(3) c1(1) True by (intro that [of c1]) simp_all
next
  case False
  from ok have pq: "pqIdx c" and np: "npIdx c"
    and dj: "set (fPurgeableQueue c) \<inter> set (fNonpurgeableResources c) = {}"
    by (auto simp: partsOk_def)
  from False r have rn: "r \<in> set (fNonpurgeableResources c)" by (simp add: tracked_def)
  from removeFromNonpurgeableArray_idx [OF np rn] obtain c1 where
    c1: "removeFromNonpurgeableArray r c = Inr c1" "npIdx c1"
    "set (fNonpurgeableResources c1) = set (fNonpurgeableResources c) - {r}"
    "fPurgeableQueue c1 = fPurgeableQueue c"
    "\<forall>x. x \<notin> set (fNonpurgeableResources c1) \<longrightarrow> objs c1 x = objs c x" by blast
  have fr: "idxFrame c c1" using c1(1) by (rule idxFrame_removeFromNonpurgeableArray)
  have e: "removeResource r c = Inr (unaccounted r c c1)"
    using False p c1(1)
    by (simp add: removeResource_def Let_def unaccounted_def scratchMapRemove_def
          uniqueHashRemove_def idxFrame_fields [OF fr])
  have pq1: "pqIdx c1"
    using pq c1(3,4,5) dj by (subst pqIdx_cong [of c1 c]) auto
  have "partsOk c1" using c1 pq1 dj by (auto simp: partsOk_def)
  moreover have "set (fPurgeableQueue c1) = set (fPurgeableQueue c) - {r}"
    using c1(4) False by auto
  moreover have "\<forall>x. x \<notin> tracked c1 \<longrightarrow> objs c1 x = objs c x"
    using c1(5) by (simp add: tracked_def)
  ultimately show ?thesis using e fr c1(3) c1(1) False by (intro that [of c1]) simp_all
qed

lemma removeResource_config:
  assumes "removeResource r c = Inr c'"
  shows "fOverBudgetCB c' = fOverBudgetCB c" "fMaxCount c' = fMaxCount c" "fMaxBytes c' = fMaxBytes c"
    "fTimestamp c' = fTimestamp c" "fOverBudgetData c' = fOverBudgetData c"
proof -
  from removeResource_Inr [OF assms] obtain c1 where
    c1: "idxFrame c c1" "c' = unaccounted r c c1" by blast
  show "fOverBudgetCB c' = fOverBudgetCB c" "fMaxCount c' = fMaxCount c" "fMaxBytes c' = fMaxBytes c"
    "fTimestamp c' = fTimestamp c" "fOverBudgetData c' = fOverBudgetData c"
    by (simp_all add: c1(2) idxFrame_fields [OF c1(1)])
qed

lemma release_Inr:
  assumes "release r c = Inr c'"
  obtains c0 where "removeResource r c = Inr c0"
    "c' = logEvent (EvRelease r) (upd r (\<lambda>x. x\<lparr>destroyed := True, gpuFreed := True\<rparr>) c0)"
  using assms by (auto simp: release_def split: sum.splits)

lemma abandon_Inr:
  assumes "abandon r c = Inr c'"
  obtains c0 where "removeResource r c = Inr c0"
    "c' = logEvent (EvAbandon r) (upd r (\<lambda>x. x\<lparr>destroyed := True\<rparr>) c0)"
  using assms by (auto simp: abandon_def split: sum.splits)

lemma logEvent_simps [simp]:
  "fPurgeableQueue (logEvent e c) = fPurgeableQueue c"
  "fNonpurgeableResources (logEvent e c) = fNonpurgeableResources c"
  "objs (logEvent e c) = objs c"
  "fTimestamp (logEvent e c) = fTimestamp c"
  "fMaxCount (logEvent e c) = fMaxCount c"
  "fMaxBytes (logEvent e c) = fMaxBytes c"
  "fBytes (logEvent e c) = fBytes c"
  "fBudgetedCount (logEvent e c) = fBudgetedCount c"
  "fBudgetedBytes (logEvent e c) = fBudgetedBytes c"
  "fOverBudgetCB (logEvent e c) = fOverBudgetCB c"
  "fOverBudgetData (logEvent e c) = fOverBudgetData c"
  "fScratchMap (logEvent e c) = fScratchMap c"
  "fUniqueHash (logEvent e c) = fUniqueHash c"
  "events (logEvent e c) = events c @ [e]"
  by (simp_all add: logEvent_def)

lemma upd_simps [simp]:
  "fPurgeableQueue (upd r f c) = fPurgeableQueue c"
  "fNonpurgeableResources (upd r f c) = fNonpurgeableResources c"
  "objs (upd r f c) = (objs c)(r := f (objs c r))"
  "fTimestamp (upd r f c) = fTimestamp c"
  "fMaxCount (upd r f c) = fMaxCount c"
  "fMaxBytes (upd r f c) = fMaxBytes c"
  "fBytes (upd r f c) = fBytes c"
  "fBudgetedCount (upd r f c) = fBudgetedCount c"
  "fBudgetedBytes (upd r f c) = fBudgetedBytes c"
  "fOverBudgetCB (upd r f c) = fOverBudgetCB c"
  "fOverBudgetData (upd r f c) = fOverBudgetData c"
  "fScratchMap (upd r f c) = fScratchMap c"
  "fUniqueHash (upd r f c) = fUniqueHash c"
  "events (upd r f c) = events c"
  by (simp_all add: upd_def)

lemma release_config:
  assumes "release r c = Inr c'"
  shows "fOverBudgetCB c' = fOverBudgetCB c" "fMaxCount c' = fMaxCount c" "fMaxBytes c' = fMaxBytes c"
    "fTimestamp c' = fTimestamp c" "fOverBudgetData c' = fOverBudgetData c"
proof -
  from release_Inr [OF assms] obtain c0 where c0: "removeResource r c = Inr c0"
    "c' = logEvent (EvRelease r) (upd r (\<lambda>x. x\<lparr>destroyed := True, gpuFreed := True\<rparr>) c0)"
    by blast
  show "fOverBudgetCB c' = fOverBudgetCB c" "fMaxCount c' = fMaxCount c" "fMaxBytes c' = fMaxBytes c"
    "fTimestamp c' = fTimestamp c" "fOverBudgetData c' = fOverBudgetData c"
    by (simp_all add: c0(2) removeResource_config [OF c0(1)])
qed


lemma removeResource_error: "removeResource r c = Inl e \<Longrightarrow> e = BadIndex"
  by (auto simp: removeResource_def queueRemove_def removeFromNonpurgeableArray_def Let_def
        split: sum.splits if_splits)

lemma release_error: "release r c = Inl e \<Longrightarrow> e = BadIndex"
  by (auto simp: release_def split: sum.splits dest: removeResource_error)

lemma purgeLoop_error: "purgeLoop c = Inl e \<Longrightarrow> e = BadIndex"
proof (induction c rule: purgeLoop.induct)
  case (1 c)
  from "1.prems" have ne: "fPurgeableQueue c \<noteq> []"
    by (subst (asm) purgeLoop.simps) (auto split: if_splits)
  show ?case
  proof (cases "release (queuePeek c) c")
    case (Inl e')
    with "1.prems" ne have "e = e'" by (subst (asm) purgeLoop.simps) simp
    with Inl show ?thesis by (auto dest: release_error)
  next
    case (Inr c1)
    with "1.prems" ne have "overBudget c1 \<and> purgeLoop c1 = Inl e"
      by (subst (asm) purgeLoop.simps) (auto split: if_splits)
    with "1.IH" [OF ne Inr] show ?thesis by simp
  qed
qed

lemma purgeLoop_exit:
  "purgeLoop c = Inr (still, c') \<Longrightarrow> overBudget c \<Longrightarrow>
     still = overBudget c' \<and> (still \<longrightarrow> fPurgeableQueue c' = []) \<and>
     fOverBudgetCB c' = fOverBudgetCB c"
proof (induction c rule: purgeLoop.induct)
  case (1 c)
  show ?case
  proof (cases "fPurgeableQueue c = []")
    case True
    with "1.prems" show ?thesis by (subst (asm) purgeLoop.simps) auto
  next
    case False
    with "1.prems" obtain c1 where r: "release (queuePeek c) c = Inr c1"
      by (subst (asm) purgeLoop.simps) (auto split: sum.splits)
    show ?thesis
    proof (cases "overBudget c1")
      case True
      with "1.prems" False r have "purgeLoop c1 = Inr (still, c')"
        by (subst (asm) purgeLoop.simps) simp
      with "1.IH" [OF False r] True release_config(1) [OF r] show ?thesis by simp
    next
      case F2: False
      with "1.prems" False r have "c' = c1 \<and> \<not> still"
        by (subst (asm) purgeLoop.simps) auto
      with F2 release_config(1) [OF r] show ?thesis by simp
    qed
  qed
qed


subsection \<open>The over-budget callback\<close>

text \<open>
  The cache built by the constructor with both limits set to zero, and the same cache
  as \<^verbatim>\<open>insertResource\<close> leaves it just before it calls \<^verbatim>\<open>purgeAsNeeded\<close>.
\<close>

definition exZeroBudget :: GrResourceCache where
  "exZeroBudget = (newCache exStore)\<lparr>fMaxCount := 0, fMaxBytes := 0\<rparr>"

definition exZeroBudgetInserted :: GrResourceCache where
  "exZeroBudgetInserted = exZeroBudget\<lparr>fTimestamp := 1, fBytes := 100, fBudgetedCount := 1,
     fBudgetedBytes := 100, fNonpurgeableResources := [1], fScratchMap := [(Key 7, 1)],
     objs := exStore(1 := exResource\<lparr>cacheArrayIndex := 0\<rparr>)\<rparr>"

lemma exZeroBudget_setLimits: "setLimits 0 0 (newCache exStore) = Inr exZeroBudget"
  by (simp add: setLimits_def purgeAsNeeded_def overBudget_def newCache_def exZeroBudget_def)

lemma exZeroBudget_insertResource:
  "insertResource 1 exZeroBudget = purgeAsNeeded exZeroBudgetInserted"
  by (simp add: insertResource_def getNextTimestamp_def newCache_def getResourceCount_def
        setTimestamp_def upd_def addToNonpurgeableArray_def setCacheIndex_def Let_def
        exResource_def exStore_def scratchMapInsert_def exZeroBudget_def exZeroBudgetInserted_def)

text \<open>
  C9. When the purge loop of \<^verbatim>\<open>purgeAsNeeded\<close> has drained the purgeable heap and the
  cache is still over budget, the over-budget callback pointer is called; with the
  pointer still null, as the constructor leaves it, that is a call through a null
  pointer. It is the only way \<^verbatim>\<open>purgeAsNeeded\<close> reaches that call: the call is safe
  exactly when \<^verbatim>\<open>setOverBudgetCallback\<close> has installed a callback, and nothing in the
  interface makes a client do so.
\<close>

theorem purgeAsNeeded_null_callback:
  assumes "overBudget c" and "purgeLoop c = Inr (still, c')"
  shows "purgeAsNeeded c = Inl NullCallback \<longleftrightarrow>
           (fPurgeableQueue c' = [] \<and> overBudget c' \<and> fOverBudgetCB c = None)"
  using assms purgeLoop_exit [OF assms(2) assms(1)]
  by (auto simp: purgeAsNeeded_def internalPurgeAsNeeded_def split: option.splits)

theorem purgeAsNeeded_null_callback_witness:
  "fOverBudgetCB (newCache exStore) = None \<and>
   setLimits 0 0 (newCache exStore) = Inr exZeroBudget \<and>
   overBudget exZeroBudgetInserted \<and>
   purgeLoop exZeroBudgetInserted = Inr (True, exZeroBudgetInserted) \<and>
   insertResource 1 exZeroBudget = Inl NullCallback"
proof -
  have over: "overBudget exZeroBudgetInserted"
    by (simp add: overBudget_def exZeroBudgetInserted_def exZeroBudget_def newCache_def)
  have loop: "purgeLoop exZeroBudgetInserted = Inr (True, exZeroBudgetInserted)"
    by (subst purgeLoop.simps) (simp add: exZeroBudgetInserted_def exZeroBudget_def newCache_def)
  have "purgeAsNeeded exZeroBudgetInserted = Inl NullCallback"
    using purgeAsNeeded_null_callback [OF over loop] over
    by (simp add: exZeroBudgetInserted_def exZeroBudget_def newCache_def)
  then show ?thesis
    using over loop exZeroBudget_setLimits exZeroBudget_insertResource
    by (simp add: newCache_def)
qed

subsection \<open>Notification that a resource became purgeable\<close>

lemma notifyPurgeable_moved:
  assumes ok: "partsOk c" and r: "r \<in> set (fNonpurgeableResources c)"
  obtains c0 where "removeFromNonpurgeableArray r c = Inr c0"
    "idxFrame c (queueInsert r c0)" "partsOk (queueInsert r c0)"
    "set (fPurgeableQueue (queueInsert r c0)) = insert r (set (fPurgeableQueue c))"
    "set (fNonpurgeableResources (queueInsert r c0)) = set (fNonpurgeableResources c) - {r}"
proof -
  from ok have pq: "pqIdx c" and np: "npIdx c"
    and dj: "set (fPurgeableQueue c) \<inter> set (fNonpurgeableResources c) = {}"
    by (auto simp: partsOk_def)
  from removeFromNonpurgeableArray_idx [OF np r] obtain c0 where
    c0: "removeFromNonpurgeableArray r c = Inr c0" "npIdx c0"
    "set (fNonpurgeableResources c0) = set (fNonpurgeableResources c) - {r}"
    "fPurgeableQueue c0 = fPurgeableQueue c"
    "\<forall>x. x \<notin> set (fNonpurgeableResources c0) \<longrightarrow> objs c0 x = objs c x" by blast
  let ?c1 = "queueInsert r c0"
  have rq: "r \<notin> set (fPurgeableQueue c0)" using c0(4) dj r by auto
  have pq0: "pqIdx c0"
    using pq c0(3,4,5) dj by (subst pqIdx_cong [of c0 c]) auto
  note ins = queueInsert_idx [OF pq0 rq]
  have q1: "set (fPurgeableQueue ?c1) = insert r (set (fPurgeableQueue c))"
    using ins(2) c0(4) by (metis mset_eq_setD set_mset_add_mset_insert set_mset_mset)
  have n1: "fNonpurgeableResources ?c1 = fNonpurgeableResources c0" by simp
  have np1: "npIdx ?c1"
    using c0(2) ins(3) c0(3,4) dj by (subst npIdx_cong [of ?c1 c0]) auto
  have fr: "idxFrame c ?c1"
    by (rule idxFrame_trans [OF idxFrame_removeFromNonpurgeableArray [OF c0(1)]
          heapFrame_idxFrame [OF heapFrame_queueInsert]])
  have "partsOk ?c1"
    using ins(1) np1 q1 c0(3) dj by (auto simp: partsOk_def)
  with c0(1) fr show ?thesis using q1 c0(3) n1 by (intro that [of c0]) auto
qed

lemma release_partitions:
  assumes ok: "partsOk c" and r: "r \<in> tracked c"
    and p: "isPurgeable (objs c r) \<longleftrightarrow> r \<in> set (fPurgeableQueue c)"
  obtains c1 where
    "release r c = Inr (logEvent (EvRelease r)
        (upd r (\<lambda>x. x\<lparr>destroyed := True, gpuFreed := True\<rparr>) (unaccounted r c c1)))"
    "idxFrame c c1" "partsOk c1"
    "set (fPurgeableQueue c1) = set (fPurgeableQueue c) - {r}"
    "set (fNonpurgeableResources c1) = set (fNonpurgeableResources c) - {r}"
    "\<forall>x. x \<notin> tracked c1 \<longrightarrow> objs c1 x = objs c x"
    "(if r \<in> set (fPurgeableQueue c) then queueRemove r c
      else removeFromNonpurgeableArray r c) = Inr c1"
proof -
  obtain c1 where
    c1: "removeResource r c = Inr (unaccounted r c c1)" "idxFrame c c1" "partsOk c1"
    "set (fPurgeableQueue c1) = set (fPurgeableQueue c) - {r}"
    "set (fNonpurgeableResources c1) = set (fNonpurgeableResources c) - {r}"
    "\<forall>x. x \<notin> tracked c1 \<longrightarrow> objs c1 x = objs c x"
    "(if r \<in> set (fPurgeableQueue c) then queueRemove r c
      else removeFromNonpurgeableArray r c) = Inr c1"
    by (rule removeResource_partitions [OF assms])
  show ?thesis by (rule that [OF _ c1(2-7)]) (simp add: release_def c1(1))
qed

text \<open>
  C1. \<^verbatim>\<open>notifyPurgeable\<close> is called for a tracked resource of the nonpurgeable array whose
  external reference count has reached zero. It moves the resource to the purgeable
  heap. An unbudgeted resource is marked budgeted and kept exactly when it is not
  wrapped, has a valid scratch key, \<open>fBudgetedCount < fMaxCount\<close> and
  \<open>fBudgetedBytes + size \<le> fMaxBytes\<close> (in \<^verbatim>\<open>size_t\<close> arithmetic, as the source computes
  it); otherwise it is released. A budgeted resource is released exactly when the cache
  is over budget or the resource has neither a valid scratch key nor a valid unique
  key, and kept otherwise. Kept means: in the heap, budgeted, not destroyed by the
  call; released means: in neither partition, destroyed, its release logged.
\<close>

theorem notifyPurgeable_decision:
  assumes ok: "partsOk c" and r: "r \<in> set (fNonpurgeableResources c)"
    and p: "isPurgeable (objs c r)"
  shows "\<exists>c'. notifyPurgeable r c = Inr c' \<and>
     r \<notin> set (fNonpurgeableResources c') \<and>
     (if (if \<not> budgeted (objs c r)
          then \<not> wrapped (objs c r) \<and> isValid (scratchKey (objs c r)) \<and>
               fBudgetedCount c < fMaxCount c \<and>
               fBudgetedBytes c + gpuMemorySize (objs c r) \<le> fMaxBytes c
          else \<not> (overBudget c \<or>
                 (\<not> isValid (scratchKey (objs c r)) \<and> \<not> isValid (uniqueKey (objs c r)))))
      then r \<in> set (fPurgeableQueue c') \<and> budgeted (objs c' r) \<and>
           destroyed (objs c' r) = destroyed (objs c r) \<and> events c' = events c
      else r \<notin> set (fPurgeableQueue c') \<and> destroyed (objs c' r) \<and>
           events c' = events c @ [EvRelease r])"
proof -
  from notifyPurgeable_moved [OF ok r] obtain c0 where
    c0: "removeFromNonpurgeableArray r c = Inr c0"
    and fr: "idxFrame c (queueInsert r c0)" and ok1: "partsOk (queueInsert r c0)"
    and q1: "set (fPurgeableQueue (queueInsert r c0)) = insert r (set (fPurgeableQueue c))"
    and n1: "set (fNonpurgeableResources (queueInsert r c0)) = set (fNonpurgeableResources c) - {r}"
    by blast
  let ?c1 = "queueInsert r c0"
  note f = idxFrame_fields [OF fr]
    idxFrame_fields [OF idxFrame_removeFromNonpurgeableArray [OF c0]]
  have ob: "overBudget ?c1 = overBudget c" by (simp add: overBudget_def f)
  have rt: "r \<in> tracked ?c1" using q1 by (simp add: tracked_def)
  have p1: "isPurgeable (objs ?c1 r) \<longleftrightarrow> r \<in> set (fPurgeableQueue ?c1)"
    using p q1 by (simp add: f)
  obtain c2 where
    rel: "release r ?c1 = Inr (logEvent (EvRelease r)
        (upd r (\<lambda>x. x\<lparr>destroyed := True, gpuFreed := True\<rparr>) (unaccounted r ?c1 c2)))"
    and fr2: "idxFrame ?c1 c2" and "partsOk c2"
    and q2: "set (fPurgeableQueue c2) = set (fPurgeableQueue ?c1) - {r}"
    and n2: "set (fNonpurgeableResources c2) = set (fNonpurgeableResources ?c1) - {r}"
    and "\<forall>x. x \<notin> tracked c2 \<longrightarrow> objs c2 x = objs ?c1 x"
    and "(if r \<in> set (fPurgeableQueue ?c1) then queueRemove r ?c1
          else removeFromNonpurgeableArray r ?c1) = Inr c2"
    by (rule release_partitions [OF ok1 rt p1])
  have released: "\<exists>c'. release r ?c1 = Inr c' \<and> r \<notin> set (fNonpurgeableResources c') \<and>
      r \<notin> set (fPurgeableQueue c') \<and> destroyed (objs c' r) \<and> events c' = events c @ [EvRelease r]"
    using rel q2 n2 by (simp add: f idxFrame_fields [OF fr2])
  show ?thesis
  proof (cases "budgeted (objs c r)")
    case True
    then show ?thesis
      using released c0 ob q1 n1
      by (auto simp: notifyPurgeable_def Let_def f)
  next
    case False
    show ?thesis
    proof (cases "\<not> wrapped (objs c r) \<and> isValid (scratchKey (objs c r)) \<and>
               fBudgetedCount c < fMaxCount c \<and>
               fBudgetedBytes c + gpuMemorySize (objs c r) \<le> fMaxBytes c")
      case fits: True
      have mb: "makeBudgeted r ?c1 = Inr ((upd r (\<lambda>x. x\<lparr>budgeted := True\<rparr>) ?c1)
          \<lparr>fBudgetedCount := fBudgetedCount c + 1,
           fBudgetedBytes := fBudgetedBytes c + gpuMemorySize (objs c r)\<rparr>)"
      proof -
        from fits have "\<not> fMaxBytes c < fBudgetedBytes c + gpuMemorySize (objs c r)"
          and "\<not> fMaxCount c < fBudgetedCount c + 1" by auto
        then show ?thesis
          by (simp add: makeBudgeted_def didChangeBudgetStatus_def Let_def purgeAsNeeded_def
              overBudget_def f)
      qed
      show ?thesis
        using False fits c0 mb q1 n1
        by (simp add: notifyPurgeable_def Let_def f)
    next
      case nofit: False
      then show ?thesis
        using False released c0
        by (auto simp: notifyPurgeable_def Let_def f)
    qed
  qed
qed


text \<open>
  An unbudgeted scratch resource whose last reference was just dropped, still in the
  nonpurgeable array of a cache with the default budget.
\<close>

definition exNotify :: GrResourceCache where
  "exNotify = (newCache (exStore(1 := exResource\<lparr>cacheArrayIndex := 0, refCnt := 0, budgeted := False\<rparr>)))
     \<lparr>fTimestamp := 1, fBytes := 100, fNonpurgeableResources := [1], fScratchMap := [(Key 7, 1)]\<rparr>"

theorem notifyPurgeable_decision_witness:
  "partsOk exNotify \<and> 1 \<in> set (fNonpurgeableResources exNotify) \<and>
   isPurgeable (objs exNotify 1) \<and>
   (\<exists>c'. notifyPurgeable 1 exNotify = Inr c' \<and> 1 \<notin> set (fNonpurgeableResources c') \<and>
      1 \<in> set (fPurgeableQueue c') \<and> budgeted (objs c' 1) \<and> \<not> destroyed (objs c' 1) \<and>
      events c' = [])"
proof -
  have ok: "partsOk exNotify"
    by (simp add: partsOk_def npIdx_def pqIdx_def exNotify_def newCache_def exResource_def)
  have r: "1 \<in> set (fNonpurgeableResources exNotify)"
    by (simp add: exNotify_def)
  have p: "isPurgeable (objs exNotify 1)"
    by (simp add: exNotify_def newCache_def isPurgeable_def internalHasRef_def)
  show ?thesis
    using notifyPurgeable_decision [OF ok r p] ok r p
    by (simp add: exNotify_def newCache_def exResource_def kDefaultMaxCount_def kDefaultMaxSize_def)
qed

subsection \<open>Heap order\<close>

text \<open>The heap order on the array, by timestamp.\<close>

definition heapOrd :: "(nat \<Rightarrow> 32 word) \<Rightarrow> nat list \<Rightarrow> bool" where
  "heapOrd k q = (\<forall>j<length q. j \<noteq> 0 \<longrightarrow> k (q ! parentOf j) \<le> k (q ! j))"

definition downOrd :: "(nat \<Rightarrow> 32 word) \<Rightarrow> nat list \<Rightarrow> nat \<Rightarrow> bool" where
  "downOrd k q i = (\<forall>j<length q. j \<noteq> 0 \<longrightarrow>
     (parentOf j \<noteq> i \<longrightarrow> k (q ! parentOf j) \<le> k (q ! j)) \<and>
     (parentOf j = i \<and> i \<noteq> 0 \<longrightarrow> k (q ! parentOf i) \<le> k (q ! j)))"

definition tsOf :: "GrResourceCache \<Rightarrow> nat \<Rightarrow> 32 word" where
  "tsOf c = (\<lambda>r. timestamp (objs c r))"

definition heapOrdered :: "GrResourceCache \<Rightarrow> bool" where
  "heapOrdered c = heapOrd (tsOf c) (fPurgeableQueue c)"

lemma parentOf_eq: "j \<noteq> 0 \<Longrightarrow> parentOf j = i \<longleftrightarrow> j = 2 * i + 1 \<or> j = 2 * i + 2"
  unfolding parentOf_def by arith

lemma parentOf_lt: "j \<noteq> 0 \<Longrightarrow> parentOf j < j"
  unfolding parentOf_def by arith

lemma downOrd_done:
  assumes d: "downOrd k q i"
    and c: "\<forall>j. (j = 2 * i + 1 \<or> j = 2 * i + 2) \<and> j < length q \<longrightarrow> k (q ! i) \<le> k (q ! j)"
  shows "heapOrd k q"
  unfolding heapOrd_def
proof (intro allI impI)
  fix j assume j: "j < length q" "j \<noteq> 0"
  show "k (q ! parentOf j) \<le> k (q ! j)"
  proof (cases "parentOf j = i")
    case True
    with j(2) have "j = 2 * i + 1 \<or> j = 2 * i + 2" by (simp add: parentOf_eq)
    with c j(1) True show ?thesis by auto
  next
    case False
    with d j show ?thesis by (simp add: downOrd_def)
  qed
qed

lemma downOrd_swap:
  assumes d: "downOrd k q i"
    and ch: "ch = 2 * i + 1 \<or> ch = 2 * i + 2" and chl: "ch < length q"
    and least: "\<forall>j. (j = 2 * i + 1 \<or> j = 2 * i + 2) \<and> j < length q \<longrightarrow> k (q ! ch) \<le> k (q ! j)"
    and lt: "k (q ! ch) < k (q ! i)"
  shows "downOrd k (q[ch := q ! i, i := q ! ch]) ch"
  unfolding downOrd_def
proof (intro allI impI conjI)
  let ?q1 = "q[ch := q ! i, i := q ! ch]"
  have ich: "i < ch" "i < length q" "ch \<noteq> 0" using ch chl by auto
  have pch: "parentOf ch = i" using ch by (auto simp: parentOf_def)
  have nth1: "\<And>m. m < length q \<Longrightarrow> ?q1 ! m = (if m = i then q ! ch else if m = ch then q ! i else q ! m)"
    using ich by (simp add: nth_list_update)
  {
    fix j assume j: "j < length ?q1" "j \<noteq> 0" and np: "parentOf j \<noteq> ch"
    from j have jl: "j < length q" by simp
    from j parentOf_lt [of j] have pl: "parentOf j < length q" by simp
    show "k (?q1 ! parentOf j) \<le> k (?q1 ! j)"
    proof (cases "parentOf j = i")
      case True
      then have jc: "j = 2 * i + 1 \<or> j = 2 * i + 2" using j(2) by (simp add: parentOf_eq)
      then have ji: "j \<noteq> i" by auto
      show ?thesis
      proof (cases "j = ch")
        case True
        then show ?thesis using \<open>parentOf j = i\<close> nth1 [OF jl] nth1 [OF ich(2)] lt ich by simp
      next
        case False
        then show ?thesis
          using \<open>parentOf j = i\<close> nth1 [OF jl] nth1 [OF ich(2)] least jc jl ji by auto
      qed
    next
      case False
      have jch: "j \<noteq> ch" using False pch by auto
      show ?thesis
      proof (cases "j = i")
        case True
        then have i0: "i \<noteq> 0" using j(2) by simp
        have "k (q ! parentOf i) \<le> k (q ! ch)"
          using d chl ich(3) pch i0 by (simp add: downOrd_def)
        moreover have "parentOf i \<noteq> i" "parentOf i \<noteq> ch"
          using parentOf_lt [OF i0] ich by auto
        ultimately show ?thesis using True nth1 [OF jl] nth1 [OF pl] by simp
      next
        case F3: False
        have "k (q ! parentOf j) \<le> k (q ! j)"
          using d jl j(2) False by (simp add: downOrd_def)
        then show ?thesis using nth1 [OF jl] nth1 [OF pl] False np F3 jch by simp
      qed
    qed
  }
  {
    fix j assume j: "j < length ?q1" "j \<noteq> 0" and p: "parentOf j = ch \<and> ch \<noteq> 0"
    from j have jl: "j < length q" by simp
    from p j(2) have jc: "j = 2 * ch + 1 \<or> j = 2 * ch + 2" by (simp add: parentOf_eq)
    then have ne: "j \<noteq> i" "j \<noteq> ch" using ich by auto
    have "k (q ! ch) \<le> k (q ! j)"
      using d jl j(2) p ich by (auto simp: downOrd_def)
    then show "k (?q1 ! parentOf ch) \<le> k (?q1 ! j)"
      using pch nth1 [OF jl] nth1 [OF ich(2)] ne by simp
  }
qed


lemma tsOf_heap [simp]:
  "tsOf (setIndex i c) = tsOf c" "tsOf (swapQ a b c) = tsOf c"
  "tsOf (percolateDown i c) = tsOf c" "tsOf (percolateUp i c) = tsOf c"
  "tsOf (queueInsert r c) = tsOf c" "tsOf (queueRemoveAt i c) = tsOf c"
  by (simp_all add: tsOf_def)

lemma tsOf_queue_update [simp]: "tsOf (c\<lparr>fPurgeableQueue := q\<rparr>) = tsOf c"
  by (simp add: tsOf_def)

lemma CompareTimestamp_tsOf: "CompareTimestamp c a b = (tsOf c a < tsOf c b)"
  by (simp add: CompareTimestamp_def tsOf_def)

lemma smallerChild_least:
  assumes "2 * i + 1 < length (fPurgeableQueue c)"
  shows "(smallerChild i c = 2 * i + 1 \<or> smallerChild i c = 2 * i + 2) \<and>
     smallerChild i c < length (fPurgeableQueue c) \<and>
     (\<forall>j. (j = 2 * i + 1 \<or> j = 2 * i + 2) \<and> j < length (fPurgeableQueue c) \<longrightarrow>
        tsOf c (fPurgeableQueue c ! smallerChild i c) \<le> tsOf c (fPurgeableQueue c ! j))"
  using assms by (auto simp: smallerChild_def Let_def CompareTimestamp_tsOf)

lemma heapOrdered_setIndex [simp]: "heapOrdered (setIndex i c) = heapOrdered c"
  by (simp add: heapOrdered_def)

lemma percolateDown_heapOrdered:
  "i < length (fPurgeableQueue c) \<Longrightarrow> downOrd (tsOf c) (fPurgeableQueue c) i \<Longrightarrow>
     heapOrdered (percolateDown i c)"
proof (induction i c rule: percolateDown.induct)
  case (1 i c)
  let ?q = "fPurgeableQueue c"
  let ?ch = "smallerChild i c"
  show ?case
  proof (cases "length ?q \<le> 2 * i + 1")
    case True
    then have "\<forall>j. (j = 2 * i + 1 \<or> j = 2 * i + 2) \<and> j < length ?q \<longrightarrow>
          tsOf c (?q ! i) \<le> tsOf c (?q ! j)" by auto
    then have "heapOrd (tsOf c) ?q" by (rule downOrd_done [OF "1.prems"(2)])
    moreover have "percolateDown i c = setIndex i c"
      using True by (subst percolateDown.simps) simp
    ultimately show ?thesis by (simp add: heapOrdered_def)
  next
    case False
    then have l: "2 * i + 1 < length ?q" by simp
    note sc = smallerChild_least [OF l]
    show ?thesis
    proof (cases "CompareTimestamp c (?q ! ?ch) (?q ! i)")
      case True
      then have lt: "tsOf c (?q ! ?ch) < tsOf c (?q ! i)" by (simp add: CompareTimestamp_tsOf)
      have "downOrd (tsOf c) (?q[?ch := ?q ! i, i := ?q ! ?ch]) ?ch"
        using downOrd_swap [OF "1.prems"(2) _ _ _ lt] sc by blast
      then have "heapOrdered (percolateDown ?ch (setIndex i (swapQ ?ch i c)))"
        using "1.IH" False True sc by simp
      then show ?thesis using False True by (subst percolateDown.simps) simp
    next
      case F2: False
      then have "\<forall>j. (j = 2 * i + 1 \<or> j = 2 * i + 2) \<and> j < length ?q \<longrightarrow>
          tsOf c (?q ! i) \<le> tsOf c (?q ! j)"
        using sc by (auto simp: CompareTimestamp_tsOf)
      then have "heapOrd (tsOf c) ?q" by (rule downOrd_done [OF "1.prems"(2)])
      moreover have "percolateDown i c = setIndex i c"
        using False F2 by (subst percolateDown.simps) simp
      ultimately show ?thesis by (simp add: heapOrdered_def)
    qed
  qed
qed

lemma heapOrd_root_least:
  assumes h: "heapOrd k q" and j: "j < length q"
  shows "k (q ! 0) \<le> k (q ! j)"
  using j
proof (induction j rule: less_induct)
  case (less j)
  show ?case
  proof (cases "j = 0")
    case True
    then show ?thesis by simp
  next
    case False
    have p: "parentOf j < j" using False by (rule parentOf_lt)
    with less.prems have "k (q ! 0) \<le> k (q ! parentOf j)" by (intro less.IH) auto
    moreover have "k (q ! parentOf j) \<le> k (q ! j)"
      using h less.prems False by (simp add: heapOrd_def)
    ultimately show ?thesis by simp
  qed
qed

lemma percolateUp_0: "percolateUp 0 c = setIndex 0 c"
  by (subst percolateUp.simps) simp

lemma heapOrdered_queuePop:
  assumes h: "heapOrdered c" and ne: "fPurgeableQueue c \<noteq> []"
  shows "heapOrdered (queueRemoveAt 0 c)"
proof (cases "0 = length (fPurgeableQueue c) - 1")
  case True
  then obtain x where "fPurgeableQueue c = [x]"
    using ne by (cases "fPurgeableQueue c") auto
  then show ?thesis
    by (simp add: queueRemoveAt_def Let_def heapOrdered_def heapOrd_def)
next
  case False
  define q where "q = fPurgeableQueue c"
  define q0 where "q0 = (butlast q)[0 := last q]"
  have a: "\<forall>j<length q. j \<noteq> 0 \<longrightarrow> tsOf c (q ! parentOf j) \<le> tsOf c (q ! j)"
    using h by (simp add: heapOrdered_def heapOrd_def q_def)
  have d: "downOrd (tsOf c) q0 0"
    unfolding downOrd_def
  proof (intro allI impI conjI)
    fix j assume j: "j < length q0" "j \<noteq> 0" and p0: "parentOf j \<noteq> 0"
    have pl: "parentOf j < j" using j(2) by (rule parentOf_lt)
    have jl: "j < length q" using j(1) by (simp add: q0_def)
    have e1: "q0 ! j = q ! j" using j by (simp add: nth_butlast q0_def)
    have e2: "q0 ! parentOf j = q ! parentOf j"
      using j pl p0 by (simp add: nth_butlast q0_def)
    note a [rule_format, OF jl j(2)]
    then show "tsOf c (q0 ! parentOf j) \<le> tsOf c (q0 ! j)"
      unfolding e1 e2 .
  qed simp
  have l0: "0 < length q0" using False ne by (simp add: q0_def q_def)
  have "heapOrdered (percolateDown 0 (setIndex 0 (c\<lparr>fPurgeableQueue := q0\<rparr>)))"
    by (rule percolateDown_heapOrdered) (use d l0 in simp_all)
  moreover have "queueRemoveAt 0 c = setIndex 0 (percolateDown 0 (setIndex 0 (c\<lparr>fPurgeableQueue := q0\<rparr>)))"
    using False by (simp add: queueRemoveAt_def Let_def percolateUp_0 q0_def q_def)
  ultimately show ?thesis by simp
qed

subsection \<open>Eviction by \<^verbatim>\<open>purgeAsNeeded\<close>\<close>

text \<open>
  The checks of \<^verbatim>\<open>validate()\<close> over the two partitions: every resource of the
  nonpurgeable array is not purgeable and stores its slot, every resource of the heap
  is purgeable and stores its heap position.
\<close>

definition validatePartitions :: "GrResourceCache \<Rightarrow> bool" where
  "validatePartitions c =
     ((\<forall>i<length (fNonpurgeableResources c).
         \<not> isPurgeable (objs c (fNonpurgeableResources c ! i)) \<and>
         cacheArrayIndex (objs c (fNonpurgeableResources c ! i)) = int i) \<and>
      (\<forall>i<length (fPurgeableQueue c).
         isPurgeable (objs c (fPurgeableQueue c ! i)) \<and>
         cacheArrayIndex (objs c (fPurgeableQueue c ! i)) = int i))"

lemma validatePartitions_iff:
  "validatePartitions c \<longleftrightarrow>
     partsOk c \<and> (\<forall>x\<in>set (fNonpurgeableResources c). \<not> isPurgeable (objs c x)) \<and>
     (\<forall>x\<in>set (fPurgeableQueue c). isPurgeable (objs c x))"
proof
  assume v: "validatePartitions c"
  then have i: "npIdx c" "pqIdx c"
    by (simp_all add: validatePartitions_def npIdx_def pqIdx_def)
  from v have a: "\<forall>x\<in>set (fNonpurgeableResources c). \<not> isPurgeable (objs c x)"
    and b: "\<forall>x\<in>set (fPurgeableQueue c). isPurgeable (objs c x)"
    by (simp_all add: validatePartitions_def all_set_conv_all_nth)
  from a b have "set (fPurgeableQueue c) \<inter> set (fNonpurgeableResources c) = {}" by blast
  with i a b show "partsOk c \<and> (\<forall>x\<in>set (fNonpurgeableResources c). \<not> isPurgeable (objs c x)) \<and>
     (\<forall>x\<in>set (fPurgeableQueue c). isPurgeable (objs c x))"
    by (simp add: partsOk_def)
next
  assume "partsOk c \<and> (\<forall>x\<in>set (fNonpurgeableResources c). \<not> isPurgeable (objs c x)) \<and>
     (\<forall>x\<in>set (fPurgeableQueue c). isPurgeable (objs c x))"
  then show "validatePartitions c"
    by (simp add: validatePartitions_def all_set_conv_all_nth partsOk_def npIdx_def pqIdx_def)
qed

text \<open>Releasing a list of resources, one after the other.\<close>

fun releaseSeq :: "nat list \<Rightarrow> GrResourceCache \<Rightarrow> error + GrResourceCache" where
  "releaseSeq [] c = Inr c"
| "releaseSeq (r # rs) c =
     (case release r c of Inl e \<Rightarrow> Inl e | Inr c' \<Rightarrow> releaseSeq rs c')"

lemma tsOf_simps [simp]:
  "tsOf (logEvent e c) = tsOf c"
  "tsOf (unaccounted r c0 c) = tsOf c"
  "tsOf (upd r (\<lambda>x. x\<lparr>destroyed := True, gpuFreed := True\<rparr>) c) = tsOf c"
  "tsOf (upd r (\<lambda>x. x\<lparr>destroyed := True\<rparr>) c) = tsOf c"
  by (auto simp: tsOf_def)

lemma tsOf_idxFrame: "idxFrame c c' \<Longrightarrow> tsOf c' = tsOf c"
  by (auto simp: tsOf_def idxFrame_fields)

definition purgeInv :: "GrResourceCache \<Rightarrow> bool" where
  "purgeInv c = (partsOk c \<and> (\<forall>x\<in>set (fPurgeableQueue c). isPurgeable (objs c x)) \<and>
     heapOrdered c)"

lemma release_peek:
  assumes inv: "purgeInv c" and ne: "fPurgeableQueue c \<noteq> []"
  obtains c' where "release (queuePeek c) c = Inr c'" "purgeInv c'"
    "set (fPurgeableQueue c') = set (fPurgeableQueue c) - {queuePeek c}"
    "tsOf c' = tsOf c" "events c' = events c @ [EvRelease (queuePeek c)]"
    "\<forall>x\<in>set (fPurgeableQueue c). tsOf c (queuePeek c) \<le> tsOf c x"
proof -
  let ?r = "queuePeek c"
  from inv have ok: "partsOk c" and pur: "\<forall>x\<in>set (fPurgeableQueue c). isPurgeable (objs c x)"
    and h: "heapOrdered c" by (auto simp: purgeInv_def)
  have r0: "?r = fPurgeableQueue c ! 0" using ne by (simp add: queuePeek_def hd_conv_nth)
  have rq: "?r \<in> set (fPurgeableQueue c)" using ne by (simp add: queuePeek_def)
  then have rt: "?r \<in> tracked c" by (simp add: tracked_def)
  have p: "isPurgeable (objs c ?r) \<longleftrightarrow> ?r \<in> set (fPurgeableQueue c)" using pur rq by simp
  obtain c1 where
    rel: "release ?r c = Inr (logEvent (EvRelease ?r)
        (upd ?r (\<lambda>x. x\<lparr>destroyed := True, gpuFreed := True\<rparr>) (unaccounted ?r c c1)))"
    and fr: "idxFrame c c1" and ok1: "partsOk c1"
    and q1: "set (fPurgeableQueue c1) = set (fPurgeableQueue c) - {?r}"
    and n1: "set (fNonpurgeableResources c1) = set (fNonpurgeableResources c) - {?r}"
    and o1: "\<forall>x. x \<notin> tracked c1 \<longrightarrow> objs c1 x = objs c x"
    and rm: "(if ?r \<in> set (fPurgeableQueue c) then queueRemove ?r c
          else removeFromNonpurgeableArray ?r c) = Inr c1"
    by (rule release_partitions [OF ok rt p])
  let ?c' = "logEvent (EvRelease ?r)
        (upd ?r (\<lambda>x. x\<lparr>destroyed := True, gpuFreed := True\<rparr>) (unaccounted ?r c c1))"
  have idx0: "cacheArrayIndex (objs c ?r) = 0"
    using ok ne r0 by (auto simp: partsOk_def pqIdx_def)
  have c1: "c1 = queueRemoveAt 0 c"
    using rm rq idx0 ne by (simp add: queueRemove_def Let_def)
  have h1: "heapOrdered c1" unfolding c1 using h ne by (rule heapOrdered_queuePop)
  have ts: "tsOf ?c' = tsOf c" using tsOf_idxFrame [OF fr] by simp
  have rn: "?r \<notin> tracked c1" using q1 n1 by (simp add: tracked_def)
  have pq': "pqIdx ?c'" using ok1 rn
    by (auto simp: partsOk_def pqIdx_def tracked_def)
  have np': "npIdx ?c'" using ok1 rn
    by (auto simp: partsOk_def npIdx_def tracked_def)
  have ok': "partsOk ?c'" using ok1 pq' np' by (simp add: partsOk_def)
  have pur': "\<forall>x\<in>set (fPurgeableQueue ?c'). isPurgeable (objs ?c' x)"
    using pur q1 by (auto simp: idxFrame_fields [OF fr])
  have h': "heapOrdered ?c'" using h1 ts tsOf_idxFrame [OF fr] by (simp add: heapOrdered_def)
  have least: "\<forall>x\<in>set (fPurgeableQueue c). tsOf c ?r \<le> tsOf c x"
    using heapOrd_root_least [of "tsOf c" "fPurgeableQueue c"] h r0
    by (auto simp: heapOrdered_def in_set_conv_nth)
  show ?thesis
    by (rule that [of ?c']) (use rel ok' pur' h' q1 ts least in \<open>simp_all add: purgeInv_def idxFrame_fields [OF fr]\<close>)
qed


definition purgeTrace :: "GrResourceCache \<Rightarrow> nat list \<Rightarrow> GrResourceCache \<Rightarrow> bool" where
  "purgeTrace c rs c' =
     (releaseSeq rs c = Inr c' \<and> events c' = events c @ map EvRelease rs \<and>
      sorted (map (tsOf c) rs) \<and> distinct rs \<and> set rs \<subseteq> set (fPurgeableQueue c) \<and>
      set (fPurgeableQueue c') = set (fPurgeableQueue c) - set rs \<and>
      (\<forall>r\<in>set rs. \<forall>x\<in>set (fPurgeableQueue c'). tsOf c r \<le> tsOf c x) \<and>
      (\<forall>n<length rs. \<exists>c''. releaseSeq (take n rs) c = Inr c'' \<and> overBudget c''))"

lemma purgeTrace_Cons:
  assumes rel: "release r c = Inr c1" and ob: "overBudget c"
    and q1: "set (fPurgeableQueue c1) = set (fPurgeableQueue c) - {r}"
    and rq: "r \<in> set (fPurgeableQueue c)"
    and ts: "tsOf c1 = tsOf c" and ev: "events c1 = events c @ [EvRelease r]"
    and least: "\<forall>x\<in>set (fPurgeableQueue c). tsOf c r \<le> tsOf c x"
    and tr: "purgeTrace c1 rs c'"
  shows "purgeTrace c (r # rs) c'"
proof -
  from tr have t: "releaseSeq rs c1 = Inr c'" "events c' = events c1 @ map EvRelease rs"
    "sorted (map (tsOf c1) rs)" "distinct rs" "set rs \<subseteq> set (fPurgeableQueue c1)"
    "set (fPurgeableQueue c') = set (fPurgeableQueue c1) - set rs"
    "\<forall>r\<in>set rs. \<forall>x\<in>set (fPurgeableQueue c'). tsOf c1 r \<le> tsOf c1 x"
    "\<forall>n<length rs. \<exists>c''. releaseSeq (take n rs) c1 = Inr c'' \<and> overBudget c''"
    by (simp_all add: purgeTrace_def)
  have 1: "releaseSeq (r # rs) c = Inr c'" using rel t(1) by simp
  have 2: "events c' = events c @ map EvRelease (r # rs)" using t(2) ev by simp
  have 3: "sorted (map (tsOf c) (r # rs))" using t(3,5) ts q1 least by auto
  have 4: "distinct (r # rs)" using t(4,5) q1 by auto
  have 5: "set (r # rs) \<subseteq> set (fPurgeableQueue c)" using t(5) q1 rq by auto
  have 6: "set (fPurgeableQueue c') = set (fPurgeableQueue c) - set (r # rs)"
    using t(6) q1 by auto
  have 7: "\<forall>x\<in>set (r # rs). \<forall>y\<in>set (fPurgeableQueue c'). tsOf c x \<le> tsOf c y"
    using t(6,7) ts q1 least by auto
  have 8: "\<forall>n<length (r # rs). \<exists>c''. releaseSeq (take n (r # rs)) c = Inr c'' \<and> overBudget c''"
  proof (intro allI impI)
    fix n assume n: "n < length (r # rs)"
    show "\<exists>c''. releaseSeq (take n (r # rs)) c = Inr c'' \<and> overBudget c''"
    proof (cases n)
      case 0
      then show ?thesis using ob by simp
    next
      case (Suc m)
      with n have "m < length rs" by simp
      with t(8) obtain c'' where "releaseSeq (take m rs) c1 = Inr c''" "overBudget c''" by blast
      then show ?thesis using Suc rel by simp
    qed
  qed
  from 1 2 3 4 5 6 7 8 show ?thesis unfolding purgeTrace_def by blast
qed

lemma purgeLoop_trace:
  "purgeInv c \<Longrightarrow> overBudget c \<Longrightarrow>
     \<exists>still c' rs. purgeLoop c = Inr (still, c') \<and> purgeTrace c rs c' \<and> purgeInv c' \<and>
       tsOf c' = tsOf c"
proof (induction c rule: purgeLoop.induct)
  case (1 c)
  show ?case
  proof (cases "fPurgeableQueue c = []")
    case True
    then have "purgeLoop c = Inr (True, c)" by (subst purgeLoop.simps) simp
    moreover have "purgeTrace c [] c" by (simp add: purgeTrace_def)
    ultimately show ?thesis using "1.prems" by blast
  next
    case False
    obtain c1 where rel: "release (queuePeek c) c = Inr c1" and inv1: "purgeInv c1"
      and q1: "set (fPurgeableQueue c1) = set (fPurgeableQueue c) - {queuePeek c}"
      and ts: "tsOf c1 = tsOf c" and ev: "events c1 = events c @ [EvRelease (queuePeek c)]"
      and least: "\<forall>x\<in>set (fPurgeableQueue c). tsOf c (queuePeek c) \<le> tsOf c x"
      by (rule release_peek [OF "1.prems"(1) False])
    have rq: "queuePeek c \<in> set (fPurgeableQueue c)" using False by (simp add: queuePeek_def)
    show ?thesis
    proof (cases "overBudget c1")
      case True
      from "1.IH" [OF False rel _ inv1 True] True obtain still c' rs where
        l: "purgeLoop c1 = Inr (still, c')" and tr: "purgeTrace c1 rs c'"
        and inv': "purgeInv c'" and ts': "tsOf c' = tsOf c1" by auto
      have "purgeLoop c = Inr (still, c')"
        using False rel True l by (subst purgeLoop.simps) simp
      moreover have "purgeTrace c (queuePeek c # rs) c'"
        by (rule purgeTrace_Cons [OF rel "1.prems"(2) q1 rq ts ev least tr])
      ultimately show ?thesis using inv' ts ts' by auto
    next
      case F2: False
      have "purgeLoop c = Inr (False, c1)"
        using False rel F2 by (subst purgeLoop.simps) simp
      moreover have "purgeTrace c1 [] c1" by (simp add: purgeTrace_def)
      then have "purgeTrace c [queuePeek c] c1"
        by (rule purgeTrace_Cons [OF rel "1.prems"(2) q1 rq ts ev least])
      ultimately show ?thesis using inv1 ts by blast
    qed
  qed
qed


lemma purgeLoop_events:
  "purgeLoop c = Inr (still, c') \<Longrightarrow> \<exists>rs. events c' = events c @ map EvRelease rs"
proof (induction c rule: purgeLoop.induct)
  case (1 c)
  show ?case
  proof (cases "fPurgeableQueue c = []")
    case True
    with "1.prems" have "c' = c" by (subst (asm) purgeLoop.simps) simp
    then show ?thesis by simp
  next
    case False
    with "1.prems" obtain c1 where r: "release (queuePeek c) c = Inr c1"
      by (subst (asm) purgeLoop.simps) (auto split: sum.splits)
    from release_Inr [OF r] obtain c0 where c0: "removeResource (queuePeek c) c = Inr c0"
      "c1 = logEvent (EvRelease (queuePeek c))
         (upd (queuePeek c) (\<lambda>x. x\<lparr>destroyed := True, gpuFreed := True\<rparr>) c0)"
      by blast
    from removeResource_Inr [OF c0(1)] obtain c2 where
      c2: "idxFrame c c2" "c0 = unaccounted (queuePeek c) c c2" by blast
    have ev: "events c1 = events c @ [EvRelease (queuePeek c)]"
      by (simp add: c0(2) c2(2) idxFrame_fields [OF c2(1)])
    show ?thesis
    proof (cases "overBudget c1")
      case True
      with "1.prems" False r have "purgeLoop c1 = Inr (still, c')"
        by (subst (asm) purgeLoop.simps) simp
      from "1.IH" [OF False r _ this] True obtain rs where
        "events c' = events c1 @ map EvRelease rs" by auto
      then have "events c' = events c @ map EvRelease (queuePeek c # rs)" using ev by simp
      then show ?thesis by blast
    next
      case F2: False
      with "1.prems" False r have "c' = c1" by (subst (asm) purgeLoop.simps) simp
      then have "events c' = events c @ map EvRelease [queuePeek c]" using ev by simp
      then show ?thesis by blast
    qed
  qed
qed

lemma count_list_EvRelease [simp]: "count_list (map EvRelease rs) EvOverBudgetCB = 0"
  by (induction rs) auto

lemma overBudget_logEvent [simp]: "overBudget (logEvent e c) = overBudget c"
  by (simp add: overBudget_def)

text \<open>
  C6. A \<^verbatim>\<open>purgeAsNeeded\<close> call that returns has called the over-budget callback at most
  once, and has called it exactly when it leaves the purgeable heap empty and the cache
  over budget.
\<close>

theorem purgeAsNeeded_callback_once:
  assumes "purgeAsNeeded c = Inr c'"
  shows "\<exists>evs. events c' = events c @ evs \<and> count_list evs EvOverBudgetCB \<le> 1 \<and>
     (count_list evs EvOverBudgetCB = 1 \<longleftrightarrow> fPurgeableQueue c' = [] \<and> overBudget c')"
proof (cases "overBudget c")
  case False
  with assms have "c' = c" by (simp add: purgeAsNeeded_def)
  with False show ?thesis by simp
next
  case True
  with assms obtain still c0 where l: "purgeLoop c = Inr (still, c0)"
    and c': "c' = (if still then logEvent EvOverBudgetCB c0 else c0)"
    by (auto simp: purgeAsNeeded_def internalPurgeAsNeeded_def split: sum.splits option.splits if_splits)
  from purgeLoop_events [OF l] obtain rs where ev: "events c0 = events c @ map EvRelease rs"
    by blast
  note ex = purgeLoop_exit [OF l True]
  show ?thesis
  proof (cases still)
    case True
    then have "events c' = events c @ (map EvRelease rs @ [EvOverBudgetCB])"
      using c' ev by simp
    moreover have "count_list (map EvRelease rs @ [EvOverBudgetCB]) EvOverBudgetCB = 1" by simp
    moreover have "fPurgeableQueue c' = [] \<and> overBudget c'" using True c' ex by simp
    ultimately show ?thesis by (intro exI [of _ "map EvRelease rs @ [EvOverBudgetCB]"]) simp
  next
    case False
    then have "events c' = events c @ map EvRelease rs" using c' ev by simp
    moreover have "\<not> overBudget c'" using False c' ex by simp
    ultimately show ?thesis by (intro exI [of _ "map EvRelease rs"]) simp
  qed
qed

text \<open>
  C5. A \<^verbatim>\<open>purgeAsNeeded\<close> run on a cache whose partitions pass \<^verbatim>\<open>validate()\<close> and whose heap
  is in heap order releases a sequence \<open>rs\<close> of resources of the purgeable heap, in
  nondecreasing timestamp order, each no younger than every resource left in the heap;
  before each release the cache is over budget, so releasing stops with the first
  release that brings the cache within budget, or when the heap is empty.
\<close>

theorem purgeAsNeeded_eviction_order:
  assumes v: "validatePartitions c" and h: "heapOrdered c"
  shows "\<exists>rs c0. releaseSeq rs c = Inr c0 \<and>
     purgeAsNeeded c =
       (if overBudget c0
        then (case fOverBudgetCB c of None \<Rightarrow> Inl NullCallback
              | Some cb \<Rightarrow> Inr (logEvent EvOverBudgetCB c0))
        else Inr c0) \<and>
     events c0 = events c @ map EvRelease rs \<and>
     sorted (map (\<lambda>r. timestamp (objs c r)) rs) \<and>
     distinct rs \<and> set rs \<subseteq> set (fPurgeableQueue c) \<and>
     set (fPurgeableQueue c0) = set (fPurgeableQueue c) - set rs \<and>
     (\<forall>r\<in>set rs. \<forall>x\<in>set (fPurgeableQueue c0). timestamp (objs c r) \<le> timestamp (objs c x)) \<and>
     (\<forall>n<length rs. \<exists>c''. releaseSeq (take n rs) c = Inr c'' \<and> overBudget c'') \<and>
     (overBudget c0 \<longrightarrow> fPurgeableQueue c0 = [])"
proof (cases "overBudget c")
  case False
  then have "purgeAsNeeded c = Inr c" by (simp add: purgeAsNeeded_def)
  with False show ?thesis by (intro exI [of _ "[]"] exI [of _ c]) simp
next
  case True
  from v have inv: "purgeInv c" using h by (simp add: validatePartitions_iff purgeInv_def)
  from purgeLoop_trace [OF inv True] obtain still c0 rs where
    l: "purgeLoop c = Inr (still, c0)" and tr: "purgeTrace c rs c0" by blast
  note ex = purgeLoop_exit [OF l True]
  have p: "purgeAsNeeded c =
       (if overBudget c0
        then (case fOverBudgetCB c of None \<Rightarrow> Inl NullCallback
              | Some cb \<Rightarrow> Inr (logEvent EvOverBudgetCB c0))
        else Inr c0)"
    using True l ex by (simp add: purgeAsNeeded_def internalPurgeAsNeeded_def)
  have e: "overBudget c0 \<longrightarrow> fPurgeableQueue c0 = []" using ex by simp
  from tr p e show ?thesis
    unfolding purgeTrace_def tsOf_def by (intro exI [of _ rs] exI [of _ c0]) simp
qed

subsection \<open>Eviction on an example\<close>

text \<open>
  Three purgeable budgeted scratch resources with timestamps 1, 2, 3 in the heap of a
  cache whose count limit is 1, with a callback installed.
\<close>

definition exPurgeStore :: "nat \<Rightarrow> GrGpuResource" where
  "exPurgeStore = (\<lambda>r. exResource\<lparr>timestamp := word_of_nat r, cacheArrayIndex := int r - 1, refCnt := 0\<rparr>)"

definition exPurge :: GrResourceCache where
  "exPurge = (newCache exPurgeStore)\<lparr>fTimestamp := 4, fMaxCount := 1, fBytes := 300,
     fBudgetedCount := 3, fBudgetedBytes := 300, fOverBudgetCB := Some 0,
     fPurgeableQueue := [1, 2, 3],
     fScratchMap := [(Key 7, 1), (Key 7, 2), (Key 7, 3)]\<rparr>"

lemma exPurge_valid: "validatePartitions exPurge"
  by code_simp

lemma exPurge_heapOrdered: "heapOrdered exPurge"
  by code_simp

lemma exPurge_run:
  "map_sum id (\<lambda>c. (events c, fPurgeableQueue c)) (purgeAsNeeded exPurge) =
     Inr ([EvRelease 1, EvRelease 2], [3])"
  by code_simp

theorem purgeAsNeeded_eviction_order_witness:
  "validatePartitions exPurge \<and> heapOrdered exPurge \<and>
   map_sum id (\<lambda>c. (events c, fPurgeableQueue c)) (purgeAsNeeded exPurge) =
     Inr ([EvRelease 1, EvRelease 2], [3]) \<and>
   (\<exists>rs c0. releaseSeq rs exPurge = Inr c0 \<and>
     purgeAsNeeded exPurge =
       (if overBudget c0
        then (case fOverBudgetCB exPurge of None \<Rightarrow> Inl NullCallback
              | Some cb \<Rightarrow> Inr (logEvent EvOverBudgetCB c0))
        else Inr c0) \<and>
     events c0 = events exPurge @ map EvRelease rs \<and>
     sorted (map (\<lambda>r. timestamp (objs exPurge r)) rs) \<and>
     distinct rs \<and> set rs \<subseteq> set (fPurgeableQueue exPurge) \<and>
     set (fPurgeableQueue c0) = set (fPurgeableQueue exPurge) - set rs)"
proof -
  from purgeAsNeeded_eviction_order [OF exPurge_valid exPurge_heapOrdered]
  have "\<exists>rs c0. releaseSeq rs exPurge = Inr c0 \<and>
     purgeAsNeeded exPurge =
       (if overBudget c0
        then (case fOverBudgetCB exPurge of None \<Rightarrow> Inl NullCallback
              | Some cb \<Rightarrow> Inr (logEvent EvOverBudgetCB c0))
        else Inr c0) \<and>
     events c0 = events exPurge @ map EvRelease rs \<and>
     sorted (map (\<lambda>r. timestamp (objs exPurge r)) rs) \<and>
     distinct rs \<and> set rs \<subseteq> set (fPurgeableQueue exPurge) \<and>
     set (fPurgeableQueue c0) = set (fPurgeableQueue exPurge) - set rs"
    by blast
  with exPurge_valid exPurge_heapOrdered exPurge_run show ?thesis by blast
qed

text \<open>The over-budget cache of C9 with a callback installed.\<close>

definition exCallback :: GrResourceCache where
  "exCallback = setOverBudgetCallback 0 0 exZeroBudgetInserted"

lemma exCallback_returns: "\<not> isl (purgeAsNeeded exCallback)"
  by code_simp

lemma exCallback_run:
  "events (projr (purgeAsNeeded exCallback)) = [EvOverBudgetCB]"
  by code_simp

theorem purgeAsNeeded_callback_once_witness:
  "purgeAsNeeded exCallback = Inr (projr (purgeAsNeeded exCallback)) \<and>
   events (projr (purgeAsNeeded exCallback)) = [EvOverBudgetCB] \<and>
   (\<exists>evs. events (projr (purgeAsNeeded exCallback)) = events exCallback @ evs \<and>
      count_list evs EvOverBudgetCB \<le> 1 \<and>
      (count_list evs EvOverBudgetCB = 1 \<longleftrightarrow>
         fPurgeableQueue (projr (purgeAsNeeded exCallback)) = [] \<and>
         overBudget (projr (purgeAsNeeded exCallback))))"
proof -
  have r: "purgeAsNeeded exCallback = Inr (projr (purgeAsNeeded exCallback))"
    using exCallback_returns by simp
  from purgeAsNeeded_callback_once [OF r] r exCallback_run show ?thesis by blast
qed

subsection \<open>Scratch lookup never returns a uniquely keyed resource\<close>

lemma find_SomeD: "List.find P xs = Some x \<Longrightarrow> x \<in> set xs \<and> P x"
  by (induction xs) (auto split: if_splits)

lemma scratchMapFind_Some:
  assumes "scratchMapFind key pred c = Some r"
  shows "(key, r) \<in> set (fScratchMap c) \<and> pred (objs c r)"
proof -
  from assms obtain e where
    e: "List.find (\<lambda>e. fst e = key \<and> pred (objs c (snd e))) (fScratchMap c) = Some e"
    and "snd e = r" by (auto simp: scratchMapFind_def)
  with find_SomeD [OF e] show ?thesis by (cases e) auto
qed

lemma scratchMapFind_None:
  "scratchMapFind key pred c = None \<longleftrightarrow>
     (\<forall>r. (key, r) \<in> set (fScratchMap c) \<longrightarrow> \<not> pred (objs c r))"
  by (auto simp: scratchMapFind_def find_None_iff)

lemma promote_Some:
  "promote found c = Inr (Some r, c') \<Longrightarrow> found = Some r"
  by (auto simp: promote_def split: option.splits sum.splits)

lemma findAndRefScratchResource_found:
  assumes "findAndRefScratchResource key flags c = Inr (Some r, c')"
  shows "\<exists>b. scratchMapFind key (AvailableForScratchUse b) c = Some r"
  using assms unfolding findAndRefScratchResource_def
  by (auto split: if_splits option.splits dest!: promote_Some)

text \<open>
  C10. A resource returned by \<^verbatim>\<open>findAndRefScratchResource\<close> is stored in the scratch map
  under the requested key, has no outstanding reference and is scratch; in particular
  it holds no valid unique key. A resource with a valid unique key is never returned.
\<close>

theorem findAndRefScratchResource_never_unique:
  assumes "findAndRefScratchResource key flags c = Inr (Some r, c')"
  shows "(key, r) \<in> set (fScratchMap c) \<and> \<not> internalHasRef (objs c r) \<and>
     isScratch (objs c r) \<and> \<not> isValid (uniqueKey (objs c r))"
proof -
  from findAndRefScratchResource_found [OF assms] obtain b where
    "scratchMapFind key (AvailableForScratchUse b) c = Some r" by blast
  from scratchMapFind_Some [OF this] show ?thesis
    by (auto simp: AvailableForScratchUse_def isScratch_def split: if_splits)
qed

text \<open>
  The cache of the eviction example, where resource 1 also holds a unique key: it is
  stored under the scratch key, unreferenced and without pending I/O, and is passed over.
\<close>

definition exUnique :: GrResourceCache where
  "exUnique = (upd 1 (\<lambda>x. x\<lparr>uniqueKey := Key 9\<rparr>) exPurge)\<lparr>fUniqueHash := [(Key 9, 1)]\<rparr>"

lemma exUnique_found:
  "map_sum id fst (findAndRefScratchResource (Key 7) 0 exUnique) = Inr (Some 2)"
  by code_simp

lemma exUnique_returns: "\<not> isl (findAndRefScratchResource (Key 7) 0 exUnique)"
  by code_simp

theorem findAndRefScratchResource_never_unique_witness:
  "(Key 7, 1) \<in> set (fScratchMap exUnique) \<and> \<not> internalHasRef (objs exUnique 1) \<and>
   \<not> internalHasPendingIO (objs exUnique 1) \<and> isValid (uniqueKey (objs exUnique 1)) \<and>
   findAndRefScratchResource (Key 7) 0 exUnique =
     Inr (Some 2, snd (projr (findAndRefScratchResource (Key 7) 0 exUnique))) \<and>
   (Key 7, 2) \<in> set (fScratchMap exUnique) \<and> \<not> internalHasRef (objs exUnique 2) \<and>
   isScratch (objs exUnique 2) \<and> \<not> isValid (uniqueKey (objs exUnique 2))"
proof -
  have e: "findAndRefScratchResource (Key 7) 0 exUnique =
     Inr (Some 2, snd (projr (findAndRefScratchResource (Key 7) 0 exUnique)))"
    using exUnique_found exUnique_returns
    by (cases "findAndRefScratchResource (Key 7) 0 exUnique") auto
  have "(Key 7, 1) \<in> set (fScratchMap exUnique)" "\<not> internalHasRef (objs exUnique 1)"
    "\<not> internalHasPendingIO (objs exUnique 1)" "isValid (uniqueKey (objs exUnique 1))"
    by code_simp+
  with findAndRefScratchResource_never_unique [OF e] e show ?thesis by blast
qed

end
